theory Spec2Isabelle
  imports Main "HOL-Library.AList"
begin

section \<open>Python values as loaded from YAML\<close>

text \<open>
  The schema documents handled by \<^verbatim>\<open>processor.py\<close> are what a YAML loader returns:
  nested dictionaries, lists and scalars, with no static typing. The model keeps them
  that way. A dictionary is an association list in insertion order (Python dictionaries
  iterate in insertion order); keys are strings. A \<^typ>\<open>char\<close> stands for one code point
  below 256. Floating-point scalars are left out of the model.
\<close>

datatype json =
    JNull
  | JBool bool
  | JInt int
  | JStr string
  | JList "json list"
  | JDict "(string \<times> json) list"

text \<open>The exceptions the modelled operations can raise; all of them derive from
  Python's \<^verbatim>\<open>Exception\<close>.\<close>

datatype error = TypeError | AttributeError | KeyError | ValueError | OSError

text \<open>Truth value of an object, as used by \<^verbatim>\<open>if x:\<close> and \<^verbatim>\<open>not x\<close>.\<close>

fun truthy :: "json \<Rightarrow> bool" where
  "truthy JNull = False"
| "truthy (JBool b) = b"
| "truthy (JInt i) = (i \<noteq> 0)"
| "truthy (JStr s) = (s \<noteq> [])"
| "truthy (JList xs) = (xs \<noteq> [])"
| "truthy (JDict kvs) = (kvs \<noteq> [])"

text \<open>\<^verbatim>\<open>s.startswith(p)\<close>, \<^verbatim>\<open>s.endswith(p)\<close> and \<^verbatim>\<open>p in s\<close> on strings.\<close>

fun startswith :: "string \<Rightarrow> string \<Rightarrow> bool" where
  "startswith s [] = True"
| "startswith [] (p # ps) = False"
| "startswith (c # cs) (p # ps) = (c = p \<and> startswith cs ps)"

definition endswith :: "string \<Rightarrow> string \<Rightarrow> bool" where
  "endswith s p = startswith (rev s) (rev p)"

fun str_contains :: "string \<Rightarrow> string \<Rightarrow> bool" where
  "str_contains [] p = (p = [])"
| "str_contains (c # cs) p = (startswith (c # cs) p \<or> str_contains cs p)"

text \<open>\<^verbatim>\<open>k in obj\<close> for a string \<open>k\<close>: key membership on a dictionary, element
  membership on a list, substring test on a string, \<^verbatim>\<open>TypeError\<close> on the other scalars.\<close>

fun py_in :: "string \<Rightarrow> json \<Rightarrow> error + bool" where
  "py_in k (JDict kvs) = Inr (map_of kvs k \<noteq> None)"
| "py_in k (JList xs) = Inr (JStr k \<in> set xs)"
| "py_in k (JStr s) = Inr (str_contains s k)"
| "py_in k JNull = Inl TypeError"
| "py_in k (JBool b) = Inl TypeError"
| "py_in k (JInt i) = Inl TypeError"

text \<open>\<^verbatim>\<open>obj[k]\<close> for a string \<open>k\<close>: only a dictionary can be subscripted by a string.\<close>

fun py_getitem :: "json \<Rightarrow> string \<Rightarrow> error + json" where
  "py_getitem (JDict kvs) k = (case map_of kvs k of None \<Rightarrow> Inl KeyError | Some v \<Rightarrow> Inr v)"
| "py_getitem JNull k = Inl TypeError"
| "py_getitem (JBool b) k = Inl TypeError"
| "py_getitem (JInt i) k = Inl TypeError"
| "py_getitem (JStr s) k = Inl TypeError"
| "py_getitem (JList xs) k = Inl TypeError"

text \<open>\<^verbatim>\<open>obj.get(k, default)\<close>: a method of dictionaries only.\<close>

fun py_get :: "json \<Rightarrow> string \<Rightarrow> json \<Rightarrow> error + json" where
  "py_get (JDict kvs) k d = Inr (case map_of kvs k of None \<Rightarrow> d | Some v \<Rightarrow> v)"
| "py_get JNull k d = Inl AttributeError"
| "py_get (JBool b) k d = Inl AttributeError"
| "py_get (JInt i) k d = Inl AttributeError"
| "py_get (JStr s) k d = Inl AttributeError"
| "py_get (JList xs) k d = Inl AttributeError"

text \<open>\<^verbatim>\<open>obj.items()\<close>: a method of dictionaries only.\<close>

fun py_items :: "json \<Rightarrow> error + (string \<times> json) list" where
  "py_items (JDict kvs) = Inr kvs"
| "py_items JNull = Inl AttributeError"
| "py_items (JBool b) = Inl AttributeError"
| "py_items (JInt i) = Inl AttributeError"
| "py_items (JStr s) = Inl AttributeError"
| "py_items (JList xs) = Inl AttributeError"

text \<open>\<^verbatim>\<open>obj.copy()\<close>: dictionaries and lists have it (a shallow copy; values are
  immutable in the model, so the copy is the value itself).\<close>

fun py_copy :: "json \<Rightarrow> error + json" where
  "py_copy (JDict kvs) = Inr (JDict kvs)"
| "py_copy (JList xs) = Inr (JList xs)"
| "py_copy JNull = Inl AttributeError"
| "py_copy (JBool b) = Inl AttributeError"
| "py_copy (JInt i) = Inl AttributeError"
| "py_copy (JStr s) = Inl AttributeError"

text \<open>\<^verbatim>\<open>obj[k] = v\<close> for a string \<open>k\<close>: a dictionary replaces the value of an existing
  key in place and appends a new key at the end; everything else raises.\<close>

fun py_setitem :: "json \<Rightarrow> string \<Rightarrow> json \<Rightarrow> error + json" where
  "py_setitem (JDict kvs) k v = Inr (JDict (AList.update k v kvs))"
| "py_setitem JNull k v = Inl TypeError"
| "py_setitem (JBool b) k v = Inl TypeError"
| "py_setitem (JInt i) k v = Inl TypeError"
| "py_setitem (JStr s) k v = Inl TypeError"
| "py_setitem (JList xs) k v = Inl TypeError"

text \<open>\<^verbatim>\<open>obj.append(v)\<close>: a method of lists only.\<close>

fun py_append :: "json \<Rightarrow> json \<Rightarrow> error + json" where
  "py_append (JList xs) v = Inr (JList (xs @ [v]))"
| "py_append JNull v = Inl AttributeError"
| "py_append (JBool b) v = Inl AttributeError"
| "py_append (JInt i) v = Inl AttributeError"
| "py_append (JStr s) v = Inl AttributeError"
| "py_append (JDict kvs) v = Inl AttributeError"

text \<open>What \<^verbatim>\<open>for x in obj\<close> iterates over: the elements of a list, the keys of a
  dictionary, the characters of a string; other scalars are not iterable.\<close>

fun py_iter :: "json \<Rightarrow> error + json list" where
  "py_iter (JList xs) = Inr xs"
| "py_iter (JDict kvs) = Inr (map (\<lambda>kv. JStr (fst kv)) kvs)"
| "py_iter (JStr s) = Inr (map (\<lambda>c. JStr [c]) s)"
| "py_iter JNull = Inl TypeError"
| "py_iter (JBool b) = Inl TypeError"
| "py_iter (JInt i) = Inl TypeError"

subsection \<open>Text rendering: \<^verbatim>\<open>str\<close> and \<^verbatim>\<open>repr\<close>\<close>

fun digit_char :: "nat \<Rightarrow> char" where
  "digit_char n = char_of (48 + n)"

fun str_nat :: "nat \<Rightarrow> string" where
  "str_nat n = (if n < 10 then [digit_char n] else str_nat (n div 10) @ [digit_char (n mod 10)])"

declare str_nat.simps [simp del]

definition str_int :: "int \<Rightarrow> string" where
  "str_int i = (if i < 0 then CHR ''-'' # str_nat (nat (- i)) else str_nat (nat i))"

definition hex_char :: "nat \<Rightarrow> char" where
  "hex_char n = (if n < 10 then char_of (48 + n) else char_of (87 + n))"

text \<open>\<^verbatim>\<open>repr\<close> of a string: single quotes unless the string holds a single quote and no
  double quote; backslash, the chosen quote, tab, newline and carriage return are
  escaped, and code points that are not printable are written \<^verbatim>\<open>\xhh\<close>.\<close>

definition printable :: "char \<Rightarrow> bool" where
  "printable c = (let n = of_char c :: nat in 32 \<le> n \<and> n < 127 \<or> 161 \<le> n \<and> n \<noteq> 173)"

definition repr_char :: "char \<Rightarrow> char \<Rightarrow> string" where
  "repr_char q c =
     (if c = q \<or> c = CHR 0x5C then [CHR 0x5C, c]
      else if c = CHR 0x09 then [CHR 0x5C, CHR ''t'']
      else if c = CHR 0x0A then [CHR 0x5C, CHR ''n'']
      else if c = CHR 0x0D then [CHR 0x5C, CHR ''r'']
      else if printable c then [c]
      else [CHR 0x5C, CHR ''x'', hex_char (of_char c div 16), hex_char (of_char c mod 16)])"

definition repr_str :: "string \<Rightarrow> string" where
  "repr_str s =
     (let q = (if CHR 0x27 \<in> set s \<and> CHR 0x22 \<notin> set s then CHR 0x22 else CHR 0x27)
      in q # concat (map (repr_char q) s) @ [q])"

fun join :: "string \<Rightarrow> string list \<Rightarrow> string" where
  "join sep [] = []"
| "join sep [x] = x"
| "join sep (x # y # ys) = x @ sep @ join sep (y # ys)"

fun py_repr :: "json \<Rightarrow> string" where
  "py_repr JNull = ''None''"
| "py_repr (JBool b) = (if b then ''True'' else ''False'')"
| "py_repr (JInt i) = str_int i"
| "py_repr (JStr s) = repr_str s"
| "py_repr (JList xs) = ''['' @ join '', '' (map py_repr xs) @ '']''"
| "py_repr (JDict kvs) =
     ''{'' @ join '', '' (map (\<lambda>kv. repr_str (fst kv) @ '': '' @ py_repr (snd kv)) kvs) @ ''}''"

text \<open>\<^verbatim>\<open>str(x)\<close> is the string itself for a string and \<^verbatim>\<open>repr(x)\<close> otherwise.\<close>

fun py_str :: "json \<Rightarrow> string" where
  "py_str (JStr s) = s"
| "py_str v = py_repr v"

text \<open>\<^verbatim>\<open>max(xs)\<close> raises \<^verbatim>\<open>ValueError\<close> on an empty sequence.\<close>

fun py_max :: "int list \<Rightarrow> error + int" where
  "py_max [] = Inl ValueError"
| "py_max (x # xs) = Inr (fold max xs x)"

section \<open>Field classifier\<close>

text \<open>\<^verbatim>\<open>extract_field_type(field_data)\<close>.\<close>

definition extract_field_type :: "json \<Rightarrow> error + json" where
  "extract_field_type field_data =
     (case py_in ''type'' field_data of
        Inl e \<Rightarrow> Inl e
      | Inr True \<Rightarrow> py_getitem field_data ''type''
      | Inr False \<Rightarrow>
          (case py_in ''$ref'' field_data of
             Inl e \<Rightarrow> Inl e
           | Inr True \<Rightarrow> Inr (JStr ''string'')
           | Inr False \<Rightarrow> Inr (JStr ''string'')))"

text \<open>The expression
  \<^verbatim>\<open>max([len(str(e)) for e in field_data["enum"]]) if field_data["enum"] else 0\<close>,
  given the value of \<^verbatim>\<open>field_data["enum"]\<close>.\<close>

definition max_enum_length :: "json \<Rightarrow> error + int" where
  "max_enum_length enum =
     (if truthy enum then
        (case py_iter enum of
           Inl e \<Rightarrow> Inl e
         | Inr es \<Rightarrow> py_max (map (\<lambda>e. int (length (py_str e))) es))
      else Inr 0)"

text \<open>\<^verbatim>\<open>calculate_field_size(field_name, field_data)\<close>. The field name is only logged.\<close>

definition calculate_field_size :: "string \<Rightarrow> json \<Rightarrow> error + json" where
  "calculate_field_size field_name field_data =
     (case extract_field_type field_data of
        Inl e \<Rightarrow> Inl e
      | Inr field_type \<Rightarrow>
          if field_type = JStr ''string'' then
            (case py_in ''maxLength'' field_data of
               Inl e \<Rightarrow> Inl e
             | Inr True \<Rightarrow> py_getitem field_data ''maxLength''
             | Inr False \<Rightarrow>
                 (case py_in ''enum'' field_data of
                    Inl e \<Rightarrow> Inl e
                  | Inr True \<Rightarrow>
                      (case py_getitem field_data ''enum'' of
                         Inl e \<Rightarrow> Inl e
                       | Inr enum \<Rightarrow>
                           (case max_enum_length enum of
                              Inl e \<Rightarrow> Inl e
                            | Inr n \<Rightarrow> Inr (JInt n)))
                  | Inr False \<Rightarrow> Inr (JInt 100)))
          else if field_type = JStr ''number'' \<or> field_type = JStr ''integer'' then Inr (JInt 10)
          else Inr (JInt 1))"

section \<open>Sequencing of operations that may raise\<close>

definition ebind :: "error + 'a \<Rightarrow> ('a \<Rightarrow> error + 'b) \<Rightarrow> error + 'b" where
  "ebind m f = (case m of Inl e \<Rightarrow> Inl e | Inr x \<Rightarrow> f x)"

section \<open>The persistence store\<close>

text \<open>The body of a validation rule: the dictionary
  \<^verbatim>\<open>{"type": ..., "size": ..., "required": ...}\<close> with the optional key
  \<^verbatim>\<open>"enum_values"\<close>.\<close>

record rule_config =
  rc_type :: json
  rc_size :: json
  rc_required :: bool
  rc_enum_values :: "json option"

text \<open>
  Modelled from the spec: the module \<^verbatim>\<open>repository\<close> (\<^verbatim>\<open>upsert_grupo\<close>,
  \<^verbatim>\<open>upsert_conjunto_dados\<close>, \<^verbatim>\<open>upsert_regra_validacao\<close>) is not part of the sources.
  The spec describes three idempotent create-or-reuse operations keyed by natural
  identity (group name; dataset name within a group; field name within a dataset), each
  returning an identifier, last write winning on the content of a rule, and nothing ever
  deleted. The store is three tables; the identifier of a row is its position.
\<close>

record store =
  grupos :: "string list"
  conjuntos :: "(string \<times> nat) list"
  regras :: "((nat \<times> string) \<times> rule_config) list"

fun index_of :: "'a \<Rightarrow> 'a list \<Rightarrow> nat option" where
  "index_of x [] = None"
| "index_of x (y # ys) = (if x = y then Some 0 else map_option Suc (index_of x ys))"

definition upsert_row :: "'a \<Rightarrow> 'a list \<Rightarrow> nat \<times> 'a list" where
  "upsert_row x xs = (case index_of x xs of Some i \<Rightarrow> (i, xs) | None \<Rightarrow> (length xs, xs @ [x]))"

definition upsert_grupo :: "store \<Rightarrow> string \<Rightarrow> nat \<times> store" where
  "upsert_grupo st nome =
     (let (i, rows) = upsert_row nome (grupos st) in (i, st\<lparr>grupos := rows\<rparr>))"

definition upsert_conjunto_dados :: "store \<Rightarrow> string \<Rightarrow> nat \<Rightarrow> nat \<times> store" where
  "upsert_conjunto_dados st nome grupo_id =
     (let (i, rows) = upsert_row (nome, grupo_id) (conjuntos st) in (i, st\<lparr>conjuntos := rows\<rparr>))"

fun upsert_keyed :: "'k \<Rightarrow> 'v \<Rightarrow> ('k \<times> 'v) list \<Rightarrow> nat \<times> ('k \<times> 'v) list" where
  "upsert_keyed k v [] = (0, [(k, v)])"
| "upsert_keyed k v (row # rows) =
     (if fst row = k then (0, (k, v) # rows)
      else (let (i, rows') = upsert_keyed k v rows in (Suc i, row # rows')))"

definition upsert_regra_validacao ::
  "store \<Rightarrow> nat \<Rightarrow> string \<Rightarrow> rule_config \<Rightarrow> nat \<times> store" where
  "upsert_regra_validacao st conjunto_id campo cfg =
     (let (i, rows) = upsert_keyed (conjunto_id, campo) cfg (regras st)
      in (i, st\<lparr>regras := rows\<rparr>))"

section \<open>Insurance-related documents\<close>

text \<open>\<^verbatim>\<open>os.path.basename\<close> (POSIX): what follows the last slash.\<close>

fun basename :: "string \<Rightarrow> string" where
  "basename [] = []"
| "basename (c # cs) = (if CHR ''/'' \<in> set (c # cs) then basename cs else c # cs)"

text \<open>\<^verbatim>\<open>str.lower\<close> on code points below 256.\<close>

definition lower_char :: "char \<Rightarrow> char" where
  "lower_char c =
     (let n = of_char c :: nat
      in if 65 \<le> n \<and> n \<le> 90 \<or> 192 \<le> n \<and> n \<le> 222 \<and> n \<noteq> 215 then char_of (n + 32) else c)"

definition lower :: "string \<Rightarrow> string" where
  "lower s = map lower_char s"

text \<open>\<^verbatim>\<open>is_insurance_related_file(yaml_path)\<close>.\<close>

definition is_insurance_related_file :: "string \<Rightarrow> bool" where
  "is_insurance_related_file yaml_path =
     (let basename = lower (basename yaml_path)
      in if startswith basename ''insurance'' then True
         else if basename \<in> set [''person.yaml'', ''resources_v2.yaml''] then True
         else False)"

section \<open>Deriving the rules of one schema\<close>

subsection \<open>Incorporating \<^verbatim>\<open>AmountDetails\<close> from \<^verbatim>\<open>allOf\<close>\<close>

text \<open>The innermost loop of \<^verbatim>\<open>process_schema_fields\<close>, over the sub-fields of
  \<^verbatim>\<open>unit\<close>; \<open>pp\<close> is \<^verbatim>\<open>processed_properties\<close>.\<close>

fun flatten_unit :: "(string \<times> json) list \<Rightarrow> json \<Rightarrow> error + json" where
  "flatten_unit [] pp = Inr pp"
| "flatten_unit ((unit_field, unit_data) # rest) pp =
     ebind (calculate_field_size unit_field unit_data) (\<lambda>unit_field_size.
     ebind (py_setitem pp (''amount_unit_'' @ unit_field)
              (JDict [(''type'', JStr ''string''), (''maxLength'', unit_field_size)])) (\<lambda>pp'.
     flatten_unit rest pp'))"

text \<open>The loop over the sub-fields of \<^verbatim>\<open>amount\<close>.\<close>

fun flatten_amount :: "(string \<times> json) list \<Rightarrow> json \<Rightarrow> error + json" where
  "flatten_amount [] pp = Inr pp"
| "flatten_amount ((sub_field, sub_data) # rest) pp =
     ebind (calculate_field_size sub_field sub_data) (\<lambda>field_size.
     ebind (extract_field_type sub_data) (\<lambda>field_type.
     ebind (py_setitem pp (''amount_'' @ sub_field)
              (JDict [(''type'', field_type), (''maxLength'', field_size)])) (\<lambda>pp1.
     ebind (if sub_field = ''unit'' then py_in ''properties'' sub_data else Inr False) (\<lambda>nested.
     ebind (if nested then
              ebind (py_get sub_data ''properties'' (JDict [])) (\<lambda>unit_properties.
              ebind (py_items unit_properties) (\<lambda>unit_items.
              flatten_unit unit_items pp1))
            else Inr pp1) (\<lambda>pp2.
     flatten_amount rest pp2)))))"

text \<open>The loop over \<^verbatim>\<open>ref_properties.items()\<close>.\<close>

fun flatten_ref_properties :: "(string \<times> json) list \<Rightarrow> json \<Rightarrow> error + json" where
  "flatten_ref_properties [] pp = Inr pp"
| "flatten_ref_properties ((prop_name, prop_data) # rest) pp =
     ebind (if prop_name = ''amount'' then py_in ''properties'' prop_data else Inr False) (\<lambda>nested.
     ebind (if nested then
              ebind (py_get prop_data ''properties'' (JDict [])) (\<lambda>amount_properties.
              ebind (py_items amount_properties) (\<lambda>amount_items.
              flatten_amount amount_items pp))
            else Inr pp) (\<lambda>pp'.
     flatten_ref_properties rest pp'))"

text \<open>The test \<^verbatim>\<open>"$ref" in item and "/AmountDetails" in item["$ref"]\<close>.\<close>

definition refers_to_amount_details :: "json \<Rightarrow> error + bool" where
  "refers_to_amount_details item =
     ebind (py_in ''$ref'' item) (\<lambda>has_ref.
     if has_ref then ebind (py_getitem item ''$ref'') (\<lambda>r. py_in ''/AmountDetails'' r)
     else Inr False)"

text \<open>The loop \<^verbatim>\<open>for item in all_of\<close>.\<close>

fun flatten_all_of :: "json list \<Rightarrow> json \<Rightarrow> error + json" where
  "flatten_all_of [] pp = Inr pp"
| "flatten_all_of (item # rest) pp =
     ebind (refers_to_amount_details item) (\<lambda>is_amount.
     ebind (if is_amount then py_in ''properties'' item else Inr False) (\<lambda>has_properties.
     ebind (if has_properties then
              ebind (py_get item ''properties'' (JDict [])) (\<lambda>ref_properties.
              ebind (py_items ref_properties) (\<lambda>ref_items.
              flatten_ref_properties ref_items pp))
            else Inr pp) (\<lambda>pp'.
     flatten_all_of rest pp')))"

text \<open>The part of \<^verbatim>\<open>process_schema_fields\<close> before the loop over the properties: it
  returns \<^verbatim>\<open>required_fields\<close> and the items of \<^verbatim>\<open>processed_properties\<close>. An exception
  here is outside the \<^verbatim>\<open>try\<close> of the loop and leaves \<^verbatim>\<open>process_schema_fields\<close>.\<close>

definition prepare_properties :: "json \<Rightarrow> error + json \<times> (string \<times> json) list" where
  "prepare_properties schema_data =
     ebind (py_copy schema_data) (\<lambda>meta.
     ebind (py_get meta ''required'' (JList [])) (\<lambda>required_fields.
     ebind (py_get meta ''properties'' (JDict [])) (\<lambda>properties.
     ebind (py_get meta ''allOf'' (JList [])) (\<lambda>all_of.
     ebind (py_copy properties) (\<lambda>processed_properties.
     ebind (if truthy all_of then
              ebind (py_iter all_of) (\<lambda>items. flatten_all_of items processed_properties)
            else Inr processed_properties) (\<lambda>processed_properties.
     ebind (py_items processed_properties) (\<lambda>items.
     Inr (required_fields, items))))))))"

subsection \<open>One property\<close>

text \<open>\<^verbatim>\<open>ref_value.endswith(suffix)\<close> and \<^verbatim>\<open>ref_value.split("/")\<close> are methods of
  strings; on another value the attribute lookup raises.\<close>

fun py_endswith :: "json \<Rightarrow> string \<Rightarrow> error + bool" where
  "py_endswith (JStr s) p = Inr (endswith s p)"
| "py_endswith JNull p = Inl AttributeError"
| "py_endswith (JBool b) p = Inl AttributeError"
| "py_endswith (JInt i) p = Inl AttributeError"
| "py_endswith (JList xs) p = Inl AttributeError"
| "py_endswith (JDict kvs) p = Inl AttributeError"

fun py_split_last :: "json \<Rightarrow> error + unit" where
  "py_split_last (JStr s) = Inr ()"
| "py_split_last JNull = Inl AttributeError"
| "py_split_last (JBool b) = Inl AttributeError"
| "py_split_last (JInt i) = Inl AttributeError"
| "py_split_last (JList xs) = Inl AttributeError"
| "py_split_last (JDict kvs) = Inl AttributeError"

text \<open>The first test of the loop body: a reference to a schema other than
  \<^verbatim>\<open>AmountDetails\<close> in a schema of an insurance file.\<close>

definition skip_reference :: "bool \<Rightarrow> json \<Rightarrow> error + bool" where
  "skip_reference is_insurance_schema prop_data =
     ebind (if is_insurance_schema then py_in ''$ref'' prop_data else Inr False) (\<lambda>has_ref.
     if has_ref then
       ebind (py_getitem prop_data ''$ref'') (\<lambda>ref_value.
       ebind (py_endswith ref_value ''/AmountDetails'') (\<lambda>ends.
       if \<not> ends then ebind (py_split_last ref_value) (\<lambda>_. Inr True) else Inr False))
     else Inr False)"

text \<open>The second test: an array whose items carry a reference.\<close>

definition skip_array_reference :: "bool \<Rightarrow> json \<Rightarrow> error + bool" where
  "skip_array_reference is_insurance_schema prop_data =
     ebind (if is_insurance_schema then
              ebind (py_get prop_data ''type'' JNull) (\<lambda>t. Inr (t = JStr ''array''))
            else Inr False) (\<lambda>is_array.
     ebind (if is_array then py_in ''items'' prop_data else Inr False) (\<lambda>has_items.
     ebind (if has_items then
              ebind (py_getitem prop_data ''items'') (\<lambda>items. py_in ''$ref'' items)
            else Inr False) (\<lambda>items_ref.
     if items_ref then
       ebind (py_getitem prop_data ''items'') (\<lambda>items.
       ebind (py_getitem items ''$ref'') (\<lambda>r.
       ebind (py_split_last r) (\<lambda>_. Inr True)))
     else Inr False)))"

text \<open>The body of the \<^verbatim>\<open>try\<close> up to the call of the store: \<open>Inl\<close> is an exception
  (caught and logged by the loop), \<open>Inr None\<close> is \<^verbatim>\<open>continue\<close>, \<open>Inr (Some cfg)\<close> is the
  \<^verbatim>\<open>rule_config\<close> passed to \<^verbatim>\<open>upsert_regra_validacao\<close>.\<close>

definition property_rule :: "bool \<Rightarrow> json \<Rightarrow> string \<Rightarrow> json \<Rightarrow> error + rule_config option" where
  "property_rule is_insurance_schema required_fields prop_name prop_data =
     ebind (skip_reference is_insurance_schema prop_data) (\<lambda>skip1.
     if skip1 then Inr None
     else
       ebind (skip_array_reference is_insurance_schema prop_data) (\<lambda>skip2.
       if skip2 then Inr None
       else
         ebind (extract_field_type prop_data) (\<lambda>field_type.
         ebind (calculate_field_size prop_name prop_data) (\<lambda>field_size.
         ebind (py_get prop_data ''enum'' (JList [])) (\<lambda>field_enum.
         ebind (py_in prop_name required_fields) (\<lambda>field_required.
         Inr (Some \<lparr>rc_type = field_type, rc_size = field_size, rc_required = field_required,
                    rc_enum_values = (if truthy field_enum then Some field_enum else None)\<rparr>)))))))"

subsection \<open>The loop over the properties\<close>

fun process_properties ::
  "bool \<Rightarrow> json \<Rightarrow> nat \<Rightarrow> (string \<times> json) list \<Rightarrow> store \<Rightarrow> nat \<Rightarrow> nat \<times> store" where
  "process_properties is_insurance_schema required_fields conjunto_id [] st processed_count =
     (processed_count, st)"
| "process_properties is_insurance_schema required_fields conjunto_id
       ((prop_name, prop_data) # rest) st processed_count =
     (case property_rule is_insurance_schema required_fields prop_name prop_data of
        Inl e \<Rightarrow>
          process_properties is_insurance_schema required_fields conjunto_id rest st processed_count
      | Inr None \<Rightarrow>
          process_properties is_insurance_schema required_fields conjunto_id rest st processed_count
      | Inr (Some rule_config) \<Rightarrow>
          (let (rid, st') = upsert_regra_validacao st conjunto_id prop_name rule_config
           in process_properties is_insurance_schema required_fields conjunto_id rest st'
                (processed_count + 1)))"

text \<open>\<^verbatim>\<open>process_schema_fields(session, schema_name, schema_data, conjunto_id,
  is_insurance_schema)\<close>; the schema name is only logged.\<close>

definition process_schema_fields ::
  "store \<Rightarrow> string \<Rightarrow> json \<Rightarrow> nat \<Rightarrow> bool \<Rightarrow> (error + nat) \<times> store" where
  "process_schema_fields st schema_name schema_data conjunto_id is_insurance_schema =
     (case prepare_properties schema_data of
        Inl e \<Rightarrow> (Inl e, st)
      | Inr (required_fields, items) \<Rightarrow>
          (let (processed_count, st') =
                 process_properties is_insurance_schema required_fields conjunto_id items st 0
           in (Inr processed_count, st')))"

section \<open>Processing one document\<close>

subsection \<open>Adding \<^verbatim>\<open>policyId\<close> to a schema of an insurance file\<close>

text \<open>The schema dictionaries are mutated in place by \<^verbatim>\<open>process_yaml_to_db\<close>. This
  subsection gives the block that adds \<^verbatim>\<open>policyId\<close> for a schema that shares no
  dictionary or list with another place of the document: the dictionary is passed
  through each statement and returned, also when a statement raises. The block on
  objects that may be shared follows in the next section.\<close>

definition sbind ::
  "(error + unit) \<times> json \<Rightarrow> (json \<Rightarrow> (error + unit) \<times> json) \<Rightarrow> (error + unit) \<times> json" where
  "sbind r f = (case r of (Inl e, s) \<Rightarrow> (Inl e, s) | (Inr u, s) \<Rightarrow> f s)"

definition modify :: "(json \<Rightarrow> error + json) \<Rightarrow> json \<Rightarrow> (error + unit) \<times> json" where
  "modify f s = (case f s of Inl e \<Rightarrow> (Inl e, s) | Inr s' \<Rightarrow> (Inr (), s'))"

definition policy_id_property :: json where
  "policy_id_property =
     JDict [(''type'', JStr ''string''), (''maxLength'', JInt 100),
            (''description'', JStr ''Identificador u00fanico da apu00f3lice'')]"

text \<open>\<^verbatim>\<open>if k not in schema_data: schema_data[k] = default\<close>.\<close>

definition ensure_key :: "string \<Rightarrow> json \<Rightarrow> json \<Rightarrow> error + json" where
  "ensure_key k dflt schema_data =
     ebind (py_in k schema_data) (\<lambda>present.
     if present then Inr schema_data else py_setitem schema_data k dflt)"

text \<open>\<^verbatim>\<open>schema_data["properties"]["policyId"] = {...}\<close>.\<close>

definition set_policy_id_property :: "json \<Rightarrow> error + json" where
  "set_policy_id_property schema_data =
     ebind (py_getitem schema_data ''properties'') (\<lambda>properties.
     ebind (py_setitem properties ''policyId'' policy_id_property) (\<lambda>properties'.
     py_setitem schema_data ''properties'' properties'))"

text \<open>\<^verbatim>\<open>if "policyId" not in schema_data["required"]:
  schema_data["required"].append("policyId")\<close>.\<close>

definition append_policy_id_required :: "json \<Rightarrow> error + json" where
  "append_policy_id_required schema_data =
     ebind (py_getitem schema_data ''required'') (\<lambda>required.
     ebind (py_in ''policyId'' required) (\<lambda>present.
     if present then Inr schema_data
     else ebind (py_append required (JStr ''policyId'')) (\<lambda>required'.
          py_setitem schema_data ''required'' required')))"

text \<open>The block under \<^verbatim>\<open>if yaml_is_insurance:\<close> in \<^verbatim>\<open>process_yaml_to_db\<close>. The
  statements on \<^verbatim>\<open>required\<close> are inside the
  \<^verbatim>\<open>if "policyId" not in schema_data.get("properties", {})\<close>.\<close>

definition inject_policy_id :: "json \<Rightarrow> (error + unit) \<times> json" where
  "inject_policy_id schema_data =
     (case ebind (py_get schema_data ''properties'' (JDict [])) (py_in ''policyId'') of
        Inl e \<Rightarrow> (Inl e, schema_data)
      | Inr True \<Rightarrow> (Inr (), schema_data)
      | Inr False \<Rightarrow>
          sbind (modify (ensure_key ''properties'' (JDict [])) schema_data) (\<lambda>schema_data.
          sbind (modify set_policy_id_property schema_data) (\<lambda>schema_data.
          sbind (modify (ensure_key ''required'' (JList [])) schema_data) (\<lambda>schema_data.
          modify append_policy_id_required schema_data))))"

section \<open>Objects shared inside the loaded document\<close>

text \<open>
  A YAML document can name a node (an anchor) and use it again elsewhere (an alias);
  the loader then returns one Python object that is reachable from both places, and a
  write made through one place is seen through the other. \<^verbatim>\<open>process_yaml_to_db\<close> writes
  into the dictionaries and lists the loader returned, so the document it works on is
  modelled with its sharing. A value of the document is a scalar, a list or dictionary
  that occurs in one place only (written inline), or a reference to a shared object. The
  shared objects are kept in a heap, a list indexed by address; a shared object is a
  dictionary or a list (a scalar is immutable, so it is written inline wherever it
  occurs). A document without aliases has an empty heap. Documents in which an object
  contains itself are outside the model.
\<close>

datatype hjson =
    HNull
  | HBool bool
  | HInt int
  | HStr string
  | HList "hjson list"
  | HDict "(string \<times> hjson) list"
  | HRef nat

text \<open>A value without any shared part, written inline.\<close>

fun inline :: "json \<Rightarrow> hjson" where
  "inline JNull = HNull"
| "inline (JBool b) = HBool b"
| "inline (JInt i) = HInt i"
| "inline (JStr s) = HStr s"
| "inline (JList xs) = HList (map inline xs)"
| "inline (JDict kvs) = HDict (map (\<lambda>kv. (fst kv, inline (snd kv))) kvs)"

text \<open>The value a reader sees at a place of the document: every reference is followed
  into the heap as it is at the moment of reading. A chain of references through
  distinct objects is no longer than the heap, which bounds the recursion; a reference
  to no object reads as \<^verbatim>\<open>None\<close>.\<close>

fun resolve :: "nat \<Rightarrow> hjson list \<Rightarrow> hjson \<Rightarrow> json" where
  "resolve n h HNull = JNull"
| "resolve n h (HBool b) = JBool b"
| "resolve n h (HInt i) = JInt i"
| "resolve n h (HStr s) = JStr s"
| "resolve n h (HList xs) = JList (map (resolve n h) xs)"
| "resolve n h (HDict kvs) = JDict (map (\<lambda>kv. (fst kv, resolve n h (snd kv))) kvs)"
| "resolve 0 h (HRef a) = JNull"
| "resolve (Suc n) h (HRef a) = (if a < length h then resolve n h (h ! a) else JNull)"

definition snapshot :: "hjson list \<Rightarrow> hjson \<Rightarrow> json" where
  "snapshot h v = resolve (length h) h v"

text \<open>The object a value designates: the shared object behind a reference, the value
  itself otherwise.\<close>

definition deref :: "hjson list \<Rightarrow> hjson \<Rightarrow> hjson" where
  "deref h v = (case v of HRef a \<Rightarrow> (if a < length h then h ! a else HNull) | _ \<Rightarrow> v)"

text \<open>Giving the object designated by \<open>v\<close> the new content \<open>c\<close>: a shared object is
  replaced in the heap and is still designated by the same reference; an inline object
  is replaced where it stands.\<close>

definition set_object :: "hjson list \<Rightarrow> hjson \<Rightarrow> hjson \<Rightarrow> hjson list \<times> hjson" where
  "set_object h v c = (case v of HRef a \<Rightarrow> (h[a := c], v) | _ \<Rightarrow> (h, c))"

text \<open>The operations on Python values, on a value of the document, the heap being \<open>h\<close>:
  \<^verbatim>\<open>k in obj\<close>, \<^verbatim>\<open>obj[k]\<close>, \<^verbatim>\<open>obj.get(k, default)\<close>, \<^verbatim>\<open>obj.items()\<close> and the truth value
  read the designated object; \<^verbatim>\<open>obj[k] = x\<close> and \<^verbatim>\<open>obj.append(x)\<close> write it and return
  the heap and the value that designates the object afterwards.\<close>

definition h_truthy :: "hjson list \<Rightarrow> hjson \<Rightarrow> bool" where
  "h_truthy h v =
     (case deref h v of
        HNull \<Rightarrow> False
      | HBool b \<Rightarrow> b
      | HInt i \<Rightarrow> i \<noteq> 0
      | HStr s \<Rightarrow> s \<noteq> []
      | HList xs \<Rightarrow> xs \<noteq> []
      | HDict kvs \<Rightarrow> kvs \<noteq> []
      | HRef a \<Rightarrow> False)"

definition h_in :: "hjson list \<Rightarrow> string \<Rightarrow> hjson \<Rightarrow> error + bool" where
  "h_in h k v =
     (case deref h v of
        HDict kvs \<Rightarrow> Inr (map_of kvs k \<noteq> None)
      | HList xs \<Rightarrow> Inr (HStr k \<in> set (map (deref h) xs))
      | HStr s \<Rightarrow> Inr (str_contains s k)
      | _ \<Rightarrow> Inl TypeError)"

definition h_getitem :: "hjson list \<Rightarrow> hjson \<Rightarrow> string \<Rightarrow> error + hjson" where
  "h_getitem h v k =
     (case deref h v of
        HDict kvs \<Rightarrow> (case map_of kvs k of None \<Rightarrow> Inl KeyError | Some x \<Rightarrow> Inr x)
      | _ \<Rightarrow> Inl TypeError)"

definition h_get :: "hjson list \<Rightarrow> hjson \<Rightarrow> string \<Rightarrow> hjson \<Rightarrow> error + hjson" where
  "h_get h v k d =
     (case deref h v of
        HDict kvs \<Rightarrow> Inr (case map_of kvs k of None \<Rightarrow> d | Some x \<Rightarrow> x)
      | _ \<Rightarrow> Inl AttributeError)"

definition h_items :: "hjson list \<Rightarrow> hjson \<Rightarrow> error + (string \<times> hjson) list" where
  "h_items h v = (case deref h v of HDict kvs \<Rightarrow> Inr kvs | _ \<Rightarrow> Inl AttributeError)"

definition h_setitem ::
  "hjson list \<Rightarrow> hjson \<Rightarrow> string \<Rightarrow> hjson \<Rightarrow> error + hjson list \<times> hjson" where
  "h_setitem h v k x =
     (case deref h v of
        HDict kvs \<Rightarrow> Inr (set_object h v (HDict (AList.update k x kvs)))
      | _ \<Rightarrow> Inl TypeError)"

definition h_append :: "hjson list \<Rightarrow> hjson \<Rightarrow> hjson \<Rightarrow> error + hjson list \<times> hjson" where
  "h_append h v x =
     (case deref h v of
        HList xs \<Rightarrow> Inr (set_object h v (HList (xs @ [x])))
      | _ \<Rightarrow> Inl AttributeError)"

subsection \<open>Adding \<^verbatim>\<open>policyId\<close> in place\<close>

text \<open>The statements that add \<^verbatim>\<open>policyId\<close>, on the loaded objects. The state is the
  heap together with the value that designates \<^verbatim>\<open>schema_data\<close>; it is returned as the
  statements left it, also when one of them raises.\<close>

definition sbind_shared ::
  "(error + unit) \<times> hjson list \<times> hjson
     \<Rightarrow> (hjson list \<times> hjson \<Rightarrow> (error + unit) \<times> hjson list \<times> hjson)
     \<Rightarrow> (error + unit) \<times> hjson list \<times> hjson" where
  "sbind_shared r f = (case r of (Inl e, s) \<Rightarrow> (Inl e, s) | (Inr u, s) \<Rightarrow> f s)"

definition modify_shared ::
  "(hjson list \<times> hjson \<Rightarrow> error + hjson list \<times> hjson) \<Rightarrow> hjson list \<times> hjson
     \<Rightarrow> (error + unit) \<times> hjson list \<times> hjson" where
  "modify_shared f s = (case f s of Inl e \<Rightarrow> (Inl e, s) | Inr s' \<Rightarrow> (Inr (), s'))"

text \<open>\<^verbatim>\<open>if k not in schema_data: schema_data[k] = default\<close>; the default is a new
  object, held by \<^verbatim>\<open>schema_data\<close> only.\<close>

definition ensure_key_shared ::
  "string \<Rightarrow> hjson \<Rightarrow> hjson list \<times> hjson \<Rightarrow> error + hjson list \<times> hjson" where
  "ensure_key_shared k dflt s =
     (case s of (h, schema_data) \<Rightarrow>
        ebind (h_in h k schema_data) (\<lambda>present.
        if present then Inr (h, schema_data) else h_setitem h schema_data k dflt))"

text \<open>A write to the object that \<^verbatim>\<open>schema_data[k]\<close> designates has produced the heap
  \<open>h\<close> and the value \<open>member'\<close>. When the object is shared the write is in the heap and
  the entry of \<^verbatim>\<open>schema_data\<close> keeps its reference; when it is inline, the entry of
  \<^verbatim>\<open>schema_data\<close> is the object, so the entry takes the new content.\<close>

definition put_member ::
  "hjson list \<Rightarrow> hjson \<Rightarrow> string \<Rightarrow> hjson \<Rightarrow> hjson \<Rightarrow> error + hjson list \<times> hjson" where
  "put_member h schema_data k member member' =
     (case member of
        HRef a \<Rightarrow> Inr (h, schema_data)
      | _ \<Rightarrow> h_setitem h schema_data k member')"

text \<open>\<^verbatim>\<open>schema_data["properties"]["policyId"] = {...}\<close>.\<close>

definition set_policy_id_property_shared ::
  "hjson list \<times> hjson \<Rightarrow> error + hjson list \<times> hjson" where
  "set_policy_id_property_shared s =
     (case s of (h, schema_data) \<Rightarrow>
        ebind (h_getitem h schema_data ''properties'') (\<lambda>properties.
        ebind (h_setitem h properties ''policyId'' (inline policy_id_property)) (\<lambda>(h', properties').
        put_member h' schema_data ''properties'' properties properties')))"

text \<open>\<^verbatim>\<open>if "policyId" not in schema_data["required"]:
  schema_data["required"].append("policyId")\<close>.\<close>

definition append_policy_id_required_shared ::
  "hjson list \<times> hjson \<Rightarrow> error + hjson list \<times> hjson" where
  "append_policy_id_required_shared s =
     (case s of (h, schema_data) \<Rightarrow>
        ebind (h_getitem h schema_data ''required'') (\<lambda>required.
        ebind (h_in h ''policyId'' required) (\<lambda>present.
        if present then Inr (h, schema_data)
        else ebind (h_append h required (HStr ''policyId'')) (\<lambda>(h', required').
             put_member h' schema_data ''required'' required required'))))"

text \<open>The block under \<^verbatim>\<open>if yaml_is_insurance:\<close> in \<^verbatim>\<open>process_yaml_to_db\<close>, on the loaded
  objects.\<close>

definition inject_policy_id_shared ::
  "hjson list \<times> hjson \<Rightarrow> (error + unit) \<times> hjson list \<times> hjson" where
  "inject_policy_id_shared s =
     (case s of (h, schema_data) \<Rightarrow>
        (case ebind (h_get h schema_data ''properties'' (HDict [])) (h_in h ''policyId'') of
           Inl e \<Rightarrow> (Inl e, s)
         | Inr True \<Rightarrow> (Inr (), s)
         | Inr False \<Rightarrow>
             sbind_shared (modify_shared (ensure_key_shared ''properties'' (HDict [])) s) (\<lambda>s.
             sbind_shared (modify_shared set_policy_id_property_shared s) (\<lambda>s.
             sbind_shared (modify_shared (ensure_key_shared ''required'' (HList [])) s) (\<lambda>s.
             modify_shared append_policy_id_required_shared s)))))"

subsection \<open>The loop over the schemas\<close>

text \<open>The body of the loop \<^verbatim>\<open>for schema_name, schema_data in schemas.items()\<close> for a
  schema that is not skipped: the dataset is upserted, \<^verbatim>\<open>policyId\<close> is added in an
  insurance file, and the fields are processed. \<^verbatim>\<open>process_schema_fields\<close> writes only
  to its own copies (\<^verbatim>\<open>meta\<close>, \<^verbatim>\<open>processed_properties\<close>), so it is applied to what it
  reads: the schema as the heap shows it at the call. The body returns the exception
  raised or \<^verbatim>\<open>fields_processed\<close>, the store, and the heap and \<^verbatim>\<open>schema_data\<close> as it
  left them.\<close>

definition process_schema ::
  "bool \<Rightarrow> nat \<Rightarrow> string \<Rightarrow> hjson list \<times> hjson \<Rightarrow> store
     \<Rightarrow> (error + nat) \<times> store \<times> hjson list \<times> hjson" where
  "process_schema yaml_is_insurance grupo_id schema_name schema_data st =
     (let (conjunto_id, st1) = upsert_conjunto_dados st schema_name grupo_id;
          (injected, schema_data') =
            (if yaml_is_insurance then inject_policy_id_shared schema_data
             else (Inr (), schema_data))
      in case injected of
           Inl e \<Rightarrow> (Inl e, st1, schema_data')
         | Inr u \<Rightarrow>
             (let (fields_processed, st2) =
                    process_schema_fields st1 schema_name
                      (snapshot (fst schema_data') (snd schema_data')) conjunto_id yaml_is_insurance
              in (fields_processed, st2, schema_data')))"

text \<open>The loop itself, over the items of \<^verbatim>\<open>schemas\<close>, the heap being \<open>h\<close>. It returns
  the exception that left the loop or \<^verbatim>\<open>processed_schemas\<close>, the store, the heap, and
  the items of \<^verbatim>\<open>schemas\<close> as the loop left them.\<close>

fun process_schemas ::
  "bool \<Rightarrow> nat \<Rightarrow> (string \<times> hjson) list \<Rightarrow> hjson list \<Rightarrow> store \<Rightarrow> string list
     \<Rightarrow> (error + string list) \<times> store \<times> hjson list \<times> (string \<times> hjson) list" where
  "process_schemas yaml_is_insurance grupo_id [] h st processed_schemas =
     (Inr processed_schemas, st, h, [])"
| "process_schemas yaml_is_insurance grupo_id ((schema_name, schema_data) # rest) h st
       processed_schemas =
     (if schema_name = ''AmountDetails'' \<and> yaml_is_insurance then
        (let (r, st', h', rest') =
               process_schemas yaml_is_insurance grupo_id rest h st processed_schemas
         in (r, st', h', (schema_name, schema_data) # rest'))
      else
        (case process_schema yaml_is_insurance grupo_id schema_name (h, schema_data) st of
           (Inl e, st1, h1, schema_data') \<Rightarrow> (Inl e, st1, h1, (schema_name, schema_data') # rest)
         | (Inr fields_processed, st1, h1, schema_data') \<Rightarrow>
             (let (r, st', h', rest') =
                    process_schemas yaml_is_insurance grupo_id rest h1 st1
                      (if fields_processed > 0 then processed_schemas @ [schema_name]
                       else processed_schemas)
              in (r, st', h', (schema_name, schema_data') # rest'))))"

subsection \<open>\<^verbatim>\<open>process_yaml_to_db\<close>\<close>

text \<open>
  The module \<^verbatim>\<open>schema_extractor\<close> is not part of the sources, so the results of its two
  calls are parameters: \<open>extracted\<close> is what \<^verbatim>\<open>extract_schemas_from_yaml(yaml_path)\<close>
  returns (the heap of shared objects and the value \<^verbatim>\<open>schemas\<close>) or raises,
  \<open>yaml_api_name\<close> what \<^verbatim>\<open>get_api_name_from_yaml(yaml_path)\<close> returns (\<^verbatim>\<open>None\<close> or a
  string) or raises. The result is the returned boolean, the store, and the loaded
  document as the call left it.
\<close>

definition process_yaml_to_db ::
  "string \<Rightarrow> string \<Rightarrow> error + hjson list \<times> hjson \<Rightarrow> error + string option \<Rightarrow> store
     \<Rightarrow> bool \<times> store \<times> (error + hjson list \<times> hjson)" where
  "process_yaml_to_db yaml_path api_name extracted yaml_api_name st =
     (case extracted of
        Inl e \<Rightarrow> (False, st, Inl e)
      | Inr (h, schemas) \<Rightarrow>
          if \<not> h_truthy h schemas then (False, st, Inr (h, schemas))
          else
            (case yaml_api_name of
               Inl e \<Rightarrow> (False, st, Inr (h, schemas))
             | Inr api_name_from_yaml \<Rightarrow>
                 (let grupo_nome =
                        (case api_name_from_yaml of
                           None \<Rightarrow> api_name
                         | Some n \<Rightarrow> if n \<noteq> [] then n else api_name);
                      (grupo_id, st1) = upsert_grupo st grupo_nome;
                      yaml_is_insurance = is_insurance_related_file yaml_path
                  in case h_items h schemas of
                       Inl e \<Rightarrow> (False, st1, Inr (h, schemas))
                     | Inr items \<Rightarrow>
                         (let (r, st2, h', items') =
                                process_schemas yaml_is_insurance grupo_id items h st1 []
                          in ((case r of Inl e \<Rightarrow> False
                               | Inr processed_schemas \<Rightarrow> processed_schemas \<noteq> []),
                              st2, Inr (set_object h' schemas (HDict items')))))))"

section \<open>The rules a schema emits\<close>

text \<open>The sequence of calls \<^verbatim>\<open>upsert_regra_validacao(session, conjunto_id, prop_name,
  rule_config)\<close> that the loop of \<^verbatim>\<open>process_schema_fields\<close> makes on the items of
  \<^verbatim>\<open>processed_properties\<close>, as pairs of field name and rule body.\<close>

fun emitted_rules :: "bool \<Rightarrow> json \<Rightarrow> (string \<times> json) list \<Rightarrow> (string \<times> rule_config) list" where
  "emitted_rules is_insurance_schema required_fields [] = []"
| "emitted_rules is_insurance_schema required_fields ((prop_name, prop_data) # rest) =
     (case property_rule is_insurance_schema required_fields prop_name prop_data of
        Inr (Some rule_config) \<Rightarrow>
          (prop_name, rule_config) # emitted_rules is_insurance_schema required_fields rest
      | _ \<Rightarrow> emitted_rules is_insurance_schema required_fields rest)"

text \<open>The rule stored for a field of a dataset.\<close>

definition stored_rule :: "store \<Rightarrow> nat \<Rightarrow> string \<Rightarrow> rule_config option" where
  "stored_rule st conjunto_id campo = map_of (regras st) (conjunto_id, campo)"


text \<open>A schema the loop skips.\<close>

definition skipped :: "bool \<Rightarrow> string \<Rightarrow> bool" where
  "skipped yaml_is_insurance schema_name = (schema_name = ''AmountDetails'' \<and> yaml_is_insurance)"

text \<open>What the loop body does with one schema, without the store: the exception that
  leaves the body, or the rules it emits (\<^verbatim>\<open>fields_processed\<close> is their number),
  together with the heap and \<^verbatim>\<open>schema_data\<close> as the body leaves them. Neither the
  injection of \<^verbatim>\<open>policyId\<close> nor the rules derived read the store.\<close>

definition schema_step ::
  "bool \<Rightarrow> hjson list \<times> hjson
     \<Rightarrow> (error + (string \<times> rule_config) list) \<times> hjson list \<times> hjson" where
  "schema_step yaml_is_insurance schema_data =
     (case (if yaml_is_insurance then inject_policy_id_shared schema_data
            else (Inr (), schema_data)) of
        (Inl e, schema_data') \<Rightarrow> (Inl e, schema_data')
      | (Inr u, schema_data') \<Rightarrow>
          (case prepare_properties (snapshot (fst schema_data') (snd schema_data')) of
             Inl e \<Rightarrow> (Inl e, schema_data')
           | Inr (required_fields, items) \<Rightarrow>
               (Inr (emitted_rules yaml_is_insurance required_fields items), schema_data')))"

text \<open>The schemas whose loop body is entered in a run over the items of \<^verbatim>\<open>schemas\<close>
  from the heap \<open>h\<close>, in order, each with what its body yields: the schemas not skipped,
  up to and including the first one that raises. Each body works on the heap as the
  bodies before it left it.\<close>

fun schema_steps ::
  "bool \<Rightarrow> hjson list \<Rightarrow> (string \<times> hjson) list
     \<Rightarrow> (string \<times> (error + (string \<times> rule_config) list)) list" where
  "schema_steps yaml_is_insurance h [] = []"
| "schema_steps yaml_is_insurance h (item # rest) =
     (if skipped yaml_is_insurance (fst item) then schema_steps yaml_is_insurance h rest
      else
        (case schema_step yaml_is_insurance (h, snd item) of
           (Inl e, schema_data') \<Rightarrow> [(fst item, Inl e)]
         | (Inr rules, schema_data') \<Rightarrow>
             (fst item, Inr rules) # schema_steps yaml_is_insurance (fst schema_data') rest))"

text \<open>A schema whose processing raised; a schema that is recorded in
  \<^verbatim>\<open>processed_schemas\<close>, having emitted at least one rule.\<close>

definition raised :: "string \<times> (error + (string \<times> rule_config) list) \<Rightarrow> bool" where
  "raised step = (case snd step of Inl e \<Rightarrow> True | Inr rules \<Rightarrow> False)"

definition emitted :: "string \<times> (error + (string \<times> rule_config) list) \<Rightarrow> bool" where
  "emitted step = (case snd step of Inl e \<Rightarrow> False | Inr rules \<Rightarrow> rules \<noteq> [])"

text \<open>For a schema that shares no object with another place of the document, what the
  loop body yields does not depend on the schemas before it: the exception that leaves
  the body, or the number of rules emitted (\<^verbatim>\<open>fields_processed\<close>).\<close>

definition schema_rule_count :: "bool \<Rightarrow> json \<Rightarrow> error + nat" where
  "schema_rule_count yaml_is_insurance schema_data =
     (case (if yaml_is_insurance then inject_policy_id schema_data else (Inr (), schema_data)) of
        (Inl e, schema_data') \<Rightarrow> Inl e
      | (Inr u, schema_data') \<Rightarrow>
          (case prepare_properties schema_data' of
             Inl e \<Rightarrow> Inl e
           | Inr (required_fields, items) \<Rightarrow>
               Inr (length (emitted_rules yaml_is_insurance required_fields items))))"

text \<open>Such a schema whose processing raises; such a schema that is recorded in
  \<^verbatim>\<open>processed_schemas\<close>, having emitted at least one rule.\<close>

definition schema_raises :: "bool \<Rightarrow> string \<times> json \<Rightarrow> bool" where
  "schema_raises yaml_is_insurance item =
     (\<not> skipped yaml_is_insurance (fst item)
      \<and> (case schema_rule_count yaml_is_insurance (snd item) of Inl e \<Rightarrow> True | Inr k \<Rightarrow> False))"

definition schema_emits :: "bool \<Rightarrow> string \<times> json \<Rightarrow> bool" where
  "schema_emits yaml_is_insurance item =
     (\<not> skipped yaml_is_insurance (fst item)
      \<and> (case schema_rule_count yaml_is_insurance (snd item) of Inl e \<Rightarrow> False | Inr k \<Rightarrow> 0 < k))"

section \<open>What flattening may change\<close>

text \<open>A synthetic name built by the flattening starts with \<^verbatim>\<open>amount_\<close>.\<close>

definition amount_key :: "string \<Rightarrow> bool" where
  "amount_key k = startswith k ''amount_''"

text \<open>The property set \<open>kvs'\<close> differs from \<open>kvs\<close> only in properties named
  \<^verbatim>\<open>amount_...\<close>: the other entries are the same, in the same order, the keys of \<open>kvs\<close>
  are kept in place, and every key added after them is an \<^verbatim>\<open>amount_...\<close> name.\<close>

definition only_amount_added :: "(string \<times> json) list \<Rightarrow> (string \<times> json) list \<Rightarrow> bool" where
  "only_amount_added kvs kvs' =
     (filter (\<lambda>kv. \<not> amount_key (fst kv)) kvs' = filter (\<lambda>kv. \<not> amount_key (fst kv)) kvs
      \<and> take (length kvs) (map fst kvs') = map fst kvs
      \<and> list_all amount_key (drop (length kvs) (map fst kvs')))"

text \<open>An element of \<^verbatim>\<open>allOf\<close> that the loop passes over without raising and without
  incorporating anything: the test on \<^verbatim>\<open>$ref\<close> is false, or it is true and the
  element has no \<^verbatim>\<open>properties\<close>.\<close>

definition passed_over :: "json \<Rightarrow> bool" where
  "passed_over item =
     (refers_to_amount_details item = Inr False
      \<or> refers_to_amount_details item = Inr True \<and> py_in ''properties'' item = Inr False)"

text \<open>An element of \<^verbatim>\<open>allOf\<close> whose properties the loop incorporates: the test on
  \<^verbatim>\<open>$ref\<close> is true and the element has \<^verbatim>\<open>properties\<close>.\<close>

definition incorporated :: "json \<Rightarrow> bool" where
  "incorporated item =
     (refers_to_amount_details item = Inr True \<and> py_in ''properties'' item = Inr True)"

text \<open>The \<^verbatim>\<open>properties\<close> of the composed element in the flattening example of the
  spec: \<^verbatim>\<open>amount\<close> with the sub-properties \<^verbatim>\<open>value\<close> (a number) and \<^verbatim>\<open>unit\<close>, whose
  sub-property \<^verbatim>\<open>code\<close> is a string with the values \<^verbatim>\<open>USD\<close> and \<^verbatim>\<open>BRL\<close>.\<close>

definition amount_example :: json where
  "amount_example =
     JDict [(''amount'',
             JDict [(''properties'',
                     JDict [(''value'', JDict [(''type'', JStr ''number'')]),
                            (''unit'',
                             JDict [(''properties'',
                                     JDict [(''code'',
                                             JDict [(''type'', JStr ''string''),
                                                    (''enum'', JList [JStr ''USD'', JStr ''BRL''])])])])])])]"


section \<open>The upserts of a run\<close>

text \<open>The rows a run sends to the store, as lists: upserting a list of rows into a table
  of groups or datasets, and writing a list of keyed rule bodies into the table of
  rules.\<close>

fun upsert_rows :: "'a list \<Rightarrow> 'a list \<Rightarrow> 'a list" where
  "upsert_rows [] table = table"
| "upsert_rows (x # xs) table = upsert_rows xs (snd (upsert_row x table))"

fun updates :: "('k \<times> 'v) list \<Rightarrow> ('k \<times> 'v) list \<Rightarrow> ('k \<times> 'v) list" where
  "updates [] al = al"
| "updates (u # us) al = updates us (AList.update (fst u) (snd u) al)"

text \<open>The rules of a schema whose loop body has been entered: none when it raised.\<close>

definition step_rules ::
  "string \<times> (error + (string \<times> rule_config) list) \<Rightarrow> (string \<times> rule_config) list" where
  "step_rules step = (case snd step of Inl e \<Rightarrow> [] | Inr rules \<Rightarrow> rules)"

text \<open>The rule rows written for a list of entered schemas, the dataset of a schema being
  identified in the table of datasets \<open>table\<close>.\<close>

definition rule_writes ::
  "nat \<Rightarrow> (string \<times> nat) list \<Rightarrow> (string \<times> (error + (string \<times> rule_config) list)) list
     \<Rightarrow> ((nat \<times> string) \<times> rule_config) list" where
  "rule_writes grupo_id table steps =
     concat (map (\<lambda>step.
        map (\<lambda>rule. ((fst (upsert_row (fst step, grupo_id) table), fst rule), snd rule))
          (step_rules step)) steps)"

section \<open>The writes into the loaded document\<close>

text \<open>The ways an object of the loaded document can differ after a run from what the
  loader produced. The block that adds \<^verbatim>\<open>policyId\<close> makes four writes: the entry
  \<^verbatim>\<open>policyId\<close> is added to a dictionary that lacks it; the entry \<^verbatim>\<open>properties\<close>, an empty
  dictionary, or the entry \<^verbatim>\<open>required\<close>, an empty list, is added to a dictionary that
  lacks it; the string \<^verbatim>\<open>policyId\<close> is appended to a list. A dictionary changes also
  when an object it holds inline is written, its keys staying as they are; and an object
  can be written more than once.\<close>

inductive written :: "hjson \<Rightarrow> hjson \<Rightarrow> bool" where
  unchanged: "written v v"
| policy_id:
    "map_of kvs ''policyId'' = None \<Longrightarrow>
     written (HDict kvs) (HDict (kvs @ [(''policyId'', inline policy_id_property)]))"
| properties:
    "map_of kvs ''properties'' = None \<Longrightarrow>
     written (HDict kvs) (HDict (kvs @ [(''properties'', HDict [])]))"
| required:
    "map_of kvs ''required'' = None \<Longrightarrow>
     written (HDict kvs) (HDict (kvs @ [(''required'', HList [])]))"
| appended: "written (HList xs) (HList (xs @ [HStr ''policyId'']))"
| member:
    "list_all2 (\<lambda>kv kv'. fst kv' = fst kv \<and> written (snd kv) (snd kv')) kvs kvs' \<Longrightarrow>
     written (HDict kvs) (HDict kvs')"
| again: "written u v \<Longrightarrow> written v w \<Longrightarrow> written u w"

text \<open>The heap and a value of the document after some writes: no object is added to
  the heap, every object of the heap is written or unchanged, and so is the value.\<close>

definition wrote :: "hjson list \<times> hjson \<Rightarrow> hjson list \<times> hjson \<Rightarrow> bool" where
  "wrote s s' = (list_all2 written (fst s) (fst s') \<and> written (snd s) (snd s'))"

text \<open>An item of \<^verbatim>\<open>schemas\<close> after the loop: the name is kept, the schema is written or
  unchanged, and nothing is written through the entry of a schema the loop skips.\<close>

definition schema_written :: "bool \<Rightarrow> string \<times> hjson \<Rightarrow> string \<times> hjson \<Rightarrow> bool" where
  "schema_written yaml_is_insurance item item' =
     (fst item' = fst item \<and> written (snd item) (snd item')
      \<and> (skipped yaml_is_insurance (fst item) \<longrightarrow> snd item' = snd item))"

text \<open>A schema whose \<^verbatim>\<open>properties\<close> are a dictionary that holds \<^verbatim>\<open>policyId\<close>, the heap
  being \<open>fst s\<close> and the schema designated by \<open>snd s\<close>.\<close>

definition holds_policy_id :: "hjson list \<times> hjson \<Rightarrow> bool" where
  "holds_policy_id s =
     (\<exists>kvs p pkvs. deref (fst s) (snd s) = HDict kvs \<and> map_of kvs ''properties'' = Some p
        \<and> deref (fst s) p = HDict pkvs \<and> map_of pkvs ''policyId'' \<noteq> None)"

section \<open>The shape of a fragment in the data model\<close>

text \<open>The spec's data model gives a schema fragment typed parts: the reference is a
  string, the enumerated values are a sequence, the items of an array are a fragment.
  The source checks none of this; the predicates say when a loaded value has that shape.\<close>

definition is_str :: "json \<Rightarrow> bool" where
  "is_str v = (case v of JStr s \<Rightarrow> True | _ \<Rightarrow> False)"

definition is_list :: "json \<Rightarrow> bool" where
  "is_list v = (case v of JList xs \<Rightarrow> True | _ \<Rightarrow> False)"

definition is_dict :: "json \<Rightarrow> bool" where
  "is_dict v = (case v of JDict kvs \<Rightarrow> True | _ \<Rightarrow> False)"

definition ref_is_str :: "(string \<times> json) list \<Rightarrow> bool" where
  "ref_is_str kvs = (case map_of kvs ''$ref'' of None \<Rightarrow> True | Some r \<Rightarrow> is_str r)"

definition well_typed_property :: "json \<Rightarrow> bool" where
  "well_typed_property d =
     (case d of
        JDict kvs \<Rightarrow>
          ref_is_str kvs
          \<and> (case map_of kvs ''enum'' of None \<Rightarrow> True | Some e \<Rightarrow> is_list e)
          \<and> (case map_of kvs ''items'' of
               None \<Rightarrow> True
             | Some (JDict ikvs) \<Rightarrow> ref_is_str ikvs
             | Some _ \<Rightarrow> False)
      | _ \<Rightarrow> False)"


section \<open>Properties\<close>

subsection \<open>Helper facts\<close>

lemma ebind_simps [simp]: "ebind (Inl e) f = Inl e" "ebind (Inr x) f = f x"
  by (simp_all add: ebind_def)

lemma ebind_eq_Inr: "ebind m f = Inr y \<longleftrightarrow> (\<exists>x. m = Inr x \<and> f x = Inr y)"
  by (cases m) simp_all

lemma extract_field_type_dict:
  "extract_field_type (JDict kvs) = Inr (case map_of kvs ''type'' of None \<Rightarrow> JStr ''string'' | Some t \<Rightarrow> t)"
  by (simp add: extract_field_type_def split: option.splits bool.splits)

lemma max_enum_length_list:
  "max_enum_length (JList vs) = Inr (if vs = [] then 0 else Max ((\<lambda>e. int (length (py_str e))) ` set vs))"
proof (cases vs)
  case Nil
  then show ?thesis by (simp add: max_enum_length_def)
next
  case (Cons v ws)
  have "fold max (map (\<lambda>e. int (length (py_str e))) ws) (int (length (py_str v)))
        = Max (set (map (\<lambda>e. int (length (py_str e))) (v # ws)))"
    by (simp only: Max.set_eq_fold list.map)
  with Cons show ?thesis by (simp add: max_enum_length_def)
qed

subsection \<open>The size classifier\<close>

text \<open>
  Claim C3. For a field fragment (a dictionary), the effective type is the value of
  \<^verbatim>\<open>type\<close> when the key is present and \<^verbatim>\<open>"string"\<close> otherwise, which covers untyped
  and reference-only fragments. When the effective type is \<^verbatim>\<open>"string"\<close>,
  \<^verbatim>\<open>calculate_field_size\<close> returns the value of \<^verbatim>\<open>maxLength\<close> unchanged when the key is
  present; otherwise, for a non-empty \<^verbatim>\<open>enum\<close> list, the greatest length of the text of
  an enum value; for an empty \<^verbatim>\<open>enum\<close> list, 0; with no \<^verbatim>\<open>enum\<close>, 100. When the
  effective type is \<^verbatim>\<open>"number"\<close> or \<^verbatim>\<open>"integer"\<close> it returns 10 whatever else the
  fragment holds, and for every other effective type it returns 1.
\<close>

theorem calculate_field_size_cases:
  "(map_of kvs ''type'' = None \<longrightarrow> extract_field_type (JDict kvs) = Inr (JStr ''string''))
   \<and> (\<forall>t. map_of kvs ''type'' = Some t \<longrightarrow> extract_field_type (JDict kvs) = Inr t)
   \<and> (\<forall>t. extract_field_type (JDict kvs) = Inr t \<longrightarrow>
        (t = JStr ''string'' \<longrightarrow>
           (\<forall>m. map_of kvs ''maxLength'' = Some m \<longrightarrow>
                  calculate_field_size field_name (JDict kvs) = Inr m)
         \<and> (map_of kvs ''maxLength'' = None \<longrightarrow>
              (\<forall>v vs. map_of kvs ''enum'' = Some (JList (v # vs)) \<longrightarrow>
                  calculate_field_size field_name (JDict kvs) =
                    Inr (JInt (Max ((\<lambda>e. int (length (py_str e))) ` set (v # vs)))))
            \<and> (map_of kvs ''enum'' = Some (JList []) \<longrightarrow>
                  calculate_field_size field_name (JDict kvs) = Inr (JInt 0))
            \<and> (map_of kvs ''enum'' = None \<longrightarrow>
                  calculate_field_size field_name (JDict kvs) = Inr (JInt 100))))
      \<and> (t = JStr ''number'' \<or> t = JStr ''integer'' \<longrightarrow>
            calculate_field_size field_name (JDict kvs) = Inr (JInt 10))
      \<and> (t \<noteq> JStr ''string'' \<and> t \<noteq> JStr ''number'' \<and> t \<noteq> JStr ''integer'' \<longrightarrow>
            calculate_field_size field_name (JDict kvs) = Inr (JInt 1)))"
  by (auto simp add: calculate_field_size_def extract_field_type_dict max_enum_length_list
      simp del: Max_insert split: option.splits)


theorem calculate_field_size_cases_witness:
  "calculate_field_size ''currency''
     (JDict [(''type'', JStr ''string''), (''enum'', JList [JStr ''USD'', JStr ''EURO''])]) = Inr (JInt 4)
   \<and> calculate_field_size ''name'' (JDict [(''maxLength'', JInt 50)]) = Inr (JInt 50)
   \<and> calculate_field_size ''code'' (JDict [(''type'', JStr ''string''), (''enum'', JList [])]) = Inr (JInt 0)
   \<and> calculate_field_size ''owner'' (JDict [(''$ref'', JStr ''#/Owner'')]) = Inr (JInt 100)
   \<and> calculate_field_size ''n'' (JDict [(''type'', JStr ''integer''), (''maxLength'', JInt 3)]) = Inr (JInt 10)
   \<and> calculate_field_size ''b'' (JDict [(''type'', JStr ''boolean'')]) = Inr (JInt 1)"
  using calculate_field_size_cases
          [of "[(''type'', JStr ''string''), (''enum'', JList [JStr ''USD'', JStr ''EURO''])]" "''currency''"]
        calculate_field_size_cases [of "[(''maxLength'', JInt 50)]" "''name''"]
        calculate_field_size_cases
          [of "[(''type'', JStr ''string''), (''enum'', JList [])]" "''code''"]
        calculate_field_size_cases [of "[(''$ref'', JStr ''#/Owner'')]" "''owner''"]
        calculate_field_size_cases
          [of "[(''type'', JStr ''integer''), (''maxLength'', JInt 3)]" "''n''"]
        calculate_field_size_cases [of "[(''type'', JStr ''boolean'')]" "''b''"]
  by simp

lemma ebind_eq_Inl: "ebind m f = Inl e \<longleftrightarrow> m = Inl e \<or> (\<exists>x. m = Inr x \<and> f x = Inl e)"
  by (cases m) simp_all

lemma emitted_rules_mem:
  "(name, cfg) \<in> set (emitted_rules ins req items) \<Longrightarrow>
     \<exists>d. (name, d) \<in> set items \<and> property_rule ins req name d = Inr (Some cfg)"
  by (induction ins req items rule: emitted_rules.induct)
     (auto split: sum.splits option.splits)

lemma py_max_nonneg: "py_max xs = Inr n \<Longrightarrow> \<forall>x \<in> set xs. 0 \<le> x \<Longrightarrow> 0 \<le> n"
proof (cases xs)
  case Nil
  then show "py_max xs = Inr n \<Longrightarrow> ?thesis" by simp
next
  case (Cons x ys)
  assume a: "py_max xs = Inr n" "\<forall>x \<in> set xs. 0 \<le> x"
  have "n = Max (set (x # ys))"
    using a Cons by (simp add: Max.set_eq_fold del: Max_insert set_simps)
  then have "n \<in> set (x # ys)" using Max_in [of "set (x # ys)"] by simp
  then show ?thesis using a Cons by auto
qed

lemma max_enum_length_nonneg: "max_enum_length e = Inr n \<Longrightarrow> 0 \<le> n"
  by (auto simp: max_enum_length_def split: if_splits sum.splits dest!: py_max_nonneg)

lemma property_rule_Some:
  assumes "property_rule ins req name d = Inr (Some cfg)"
  shows "\<exists>kvs. d = JDict kvs \<and> extract_field_type d = Inr (rc_type cfg)
          \<and> calculate_field_size name d = Inr (rc_size cfg)"
proof -
  from assms obtain en where "py_get d ''enum'' (JList []) = Inr en"
    and t: "extract_field_type d = Inr (rc_type cfg)"
    and sz: "calculate_field_size name d = Inr (rc_size cfg)"
    by (auto simp: property_rule_def ebind_eq_Inr split: if_splits)
  then obtain kvs where "d = JDict kvs" by (cases d) simp_all
  with t sz show ?thesis by blast
qed

subsection \<open>The size of an emitted rule\<close>

text \<open>
  Claim C6, as stated, fails: a string property with an empty \<^verbatim>\<open>enum\<close> list and no
  \<^verbatim>\<open>maxLength\<close> is emitted with size 0.
\<close>

theorem zero_size_rule_counterexample:
  "process_schema_fields \<lparr>grupos = [], conjuntos = [], regras = []\<rparr> ''Coverage''
     (JDict [(''properties'',
              JDict [(''code'', JDict [(''type'', JStr ''string''), (''enum'', JList [])])])])
     0 False
   = (Inr 1,
      \<lparr>grupos = [], conjuntos = [],
         regras = [((0, ''code''),
                    \<lparr>rc_type = JStr ''string'', rc_size = JInt 0, rc_required = False,
                       rc_enum_values = None\<rparr>)]\<rparr>)"
  by (simp add: process_schema_fields_def prepare_properties_def property_rule_def
        skip_reference_def skip_array_reference_def extract_field_type_def
        calculate_field_size_def max_enum_length_def upsert_regra_validacao_def)

text \<open>
  Claim C6, amended. Every rule the loop emits comes from a property whose fragment is
  a dictionary, and its size is: for a type other than \<^verbatim>\<open>"string"\<close>, 10 or 1; for a
  string with neither \<^verbatim>\<open>maxLength\<close> nor \<^verbatim>\<open>enum\<close>, 100; for a string with \<^verbatim>\<open>enum\<close> and no
  \<^verbatim>\<open>maxLength\<close>, an integer that is at least 0; for a string with \<^verbatim>\<open>maxLength\<close>, the
  declared value as it is.
\<close>

theorem emitted_rule_size:
  assumes "(name, cfg) \<in> set (emitted_rules ins req items)"
  shows "\<exists>kvs. (name, JDict kvs) \<in> set items \<and>
           (if rc_type cfg = JStr ''string'' then
              (case map_of kvs ''maxLength'' of
                 Some m \<Rightarrow> rc_size cfg = m
               | None \<Rightarrow>
                   (case map_of kvs ''enum'' of
                      None \<Rightarrow> rc_size cfg = JInt 100
                    | Some e \<Rightarrow> (\<exists>n. rc_size cfg = JInt n \<and> 0 \<le> n)))
            else rc_size cfg = JInt 10 \<or> rc_size cfg = JInt 1)"
proof -
  from emitted_rules_mem [OF assms] obtain d where d: "(name, d) \<in> set items"
    and r: "property_rule ins req name d = Inr (Some cfg)" by blast
  from property_rule_Some [OF r] obtain kvs where k: "d = JDict kvs"
    and t: "extract_field_type d = Inr (rc_type cfg)"
    and sz: "calculate_field_size name d = Inr (rc_size cfg)" by blast
  have "if rc_type cfg = JStr ''string'' then
              (case map_of kvs ''maxLength'' of
                 Some m \<Rightarrow> rc_size cfg = m
               | None \<Rightarrow>
                   (case map_of kvs ''enum'' of
                      None \<Rightarrow> rc_size cfg = JInt 100
                    | Some e \<Rightarrow> (\<exists>n. rc_size cfg = JInt n \<and> 0 \<le> n)))
            else rc_size cfg = JInt 10 \<or> rc_size cfg = JInt 1"
    using t sz unfolding k calculate_field_size_def
    by (auto simp: ebind_eq_Inr split: option.splits sum.splits if_splits)
       (metis max_enum_length_nonneg)
  with d k show ?thesis by blast
qed

theorem emitted_rule_size_witness:
  "(''code'', \<lparr>rc_type = JStr ''string'', rc_size = JInt 0, rc_required = False,
               rc_enum_values = None\<rparr>)
     \<in> set (emitted_rules False (JList [])
              [(''code'', JDict [(''type'', JStr ''string''), (''enum'', JList [])])])
   \<and> (\<exists>kvs. (''code'', JDict kvs)
              \<in> set [(''code'', JDict [(''type'', JStr ''string''), (''enum'', JList [])])]
          \<and> map_of kvs ''maxLength'' = None \<and> map_of kvs ''enum'' = Some (JList []))"
proof -
  have h: "(''code'', \<lparr>rc_type = JStr ''string'', rc_size = JInt 0, rc_required = False,
                        rc_enum_values = None\<rparr>)
        \<in> set (emitted_rules False (JList [])
                 [(''code'', JDict [(''type'', JStr ''string''), (''enum'', JList [])])])"
    by (simp add: property_rule_def skip_reference_def skip_array_reference_def
          extract_field_type_def calculate_field_size_def max_enum_length_def)
  from emitted_rule_size [OF h] h show ?thesis by simp
qed

lemma process_properties_eq:
  "process_properties ins req cid items st n =
     (n + length (emitted_rules ins req items),
      fold (\<lambda>(k, cfg) s. snd (upsert_regra_validacao s cid k cfg)) (emitted_rules ins req items) st)"
  by (induction ins req cid items st n rule: process_properties.induct)
     (auto split: sum.splits option.splits prod.splits)

lemma snd_upsert_keyed: "snd (upsert_keyed k v rows) = AList.update k v rows"
  by (induction rows) (auto split: prod.splits)

lemma regras_upsert:
  "regras (snd (upsert_regra_validacao st cid k cfg)) = AList.update (cid, k) cfg (regras st)"
  using snd_upsert_keyed [of "(cid, k)" cfg "regras st"]
  by (auto simp add: upsert_regra_validacao_def split: prod.splits)

lemma stored_rule_upsert:
  "stored_rule (snd (upsert_regra_validacao st cid k cfg)) c k' =
     (if c = cid \<and> k' = k then Some cfg else stored_rule st c k')"
  by (simp add: stored_rule_def regras_upsert update_conv')

lemma upsert_regra_tables [simp]:
  "grupos (snd (upsert_regra_validacao st cid k cfg)) = grupos st"
  "conjuntos (snd (upsert_regra_validacao st cid k cfg)) = conjuntos st"
  by (simp_all add: upsert_regra_validacao_def split: prod.splits)

lemma stored_rule_fold:
  "stored_rule (fold (\<lambda>(k, cfg) s. snd (upsert_regra_validacao s cid k cfg)) rs st) c k =
     (if c = cid then (case map_of (rev rs) k of Some cfg \<Rightarrow> Some cfg | None \<Rightarrow> stored_rule st c k)
      else stored_rule st c k)"
  by (induction rs arbitrary: st)
     (auto simp: stored_rule_upsert map_add_def split: option.splits)

lemma emitted_rules_keys:
  "fst ` set (emitted_rules ins req items) \<subseteq> fst ` set items"
  by (induction ins req items rule: emitted_rules.induct)
     (force split: sum.splits option.splits)+

lemma emitted_rules_key:
  assumes "distinct (map fst items)" "(name, d) \<in> set items"
  shows "map_of (emitted_rules ins req items) name =
           (case property_rule ins req name d of Inr (Some cfg) \<Rightarrow> Some cfg | _ \<Rightarrow> None)"
  using assms
proof (induction ins req items rule: emitted_rules.induct)
  case (1 ins req)
  then show ?case by simp
next
  case (2 ins req k v rest)
  have notin: "\<And>x. k \<notin> fst ` set rest \<Longrightarrow> map_of (emitted_rules ins req rest) k = None"
    using emitted_rules_keys [of ins req rest] by (metis domIff dom_map_of_conv_image_fst subsetD)
  show ?case
  proof (cases "name = k")
    case True
    with 2 have "d = v" by (auto simp: rev_image_eqI)
    with True 2 notin show ?thesis by (auto split: sum.splits option.splits)
  next
    case False
    with 2 show ?thesis by (auto split: sum.splits option.splits)
  qed
qed

lemma property_rule_well_typed:
  assumes "well_typed_property (JDict kvs)"
  shows "property_rule True (JList rs) name (JDict kvs) =
     (if (\<exists>s. map_of kvs ''$ref'' = Some (JStr s) \<and> \<not> endswith s ''/AmountDetails'')
         \<or> (map_of kvs ''type'' = Some (JStr ''array'')
            \<and> (\<exists>ikvs. map_of kvs ''items'' = Some (JDict ikvs) \<and> map_of ikvs ''$ref'' \<noteq> None))
      then Inr None
      else ebind (extract_field_type (JDict kvs)) (\<lambda>field_type.
           ebind (calculate_field_size name (JDict kvs)) (\<lambda>field_size.
           Inr (Some \<lparr>rc_type = field_type, rc_size = field_size, rc_required = JStr name \<in> set rs,
                rc_enum_values = (case map_of kvs ''enum'' of None \<Rightarrow> None | Some e \<Rightarrow> if truthy e then Some e else None)\<rparr>))))"
  using assms
  by (simp add: property_rule_def skip_reference_def skip_array_reference_def
        well_typed_property_def ref_is_str_def is_str_def is_list_def
        split: option.splits json.splits)


lemma calculate_field_size_well_typed:
  assumes "well_typed_property (JDict kvs)"
  shows "\<exists>sz. calculate_field_size name (JDict kvs) = Inr sz"
  using assms
  by (auto simp: calculate_field_size_def extract_field_type_dict max_enum_length_list
        well_typed_property_def is_list_def split: option.splits json.splits bool.splits)

subsection \<open>Suppressed references\<close>

text \<open>
  Claim C2, as stated, fails: in a schema of an insurance file, an array property whose
  items refer to \<^verbatim>\<open>AmountDetails\<close> is dropped like any other array of references; no
  rule is emitted and the store is left as it was.
\<close>

theorem array_of_amount_details_counterexample:
  "process_schema_fields \<lparr>grupos = [], conjuntos = [], regras = []\<rparr> ''Policy''
     (JDict [(''properties'',
              JDict [(''amounts'',
                      JDict [(''type'', JStr ''array''),
                             (''items'',
                              JDict [(''$ref'', JStr ''#/components/schemas/AmountDetails'')])])])])
     0 True
   = (Inr 0, \<lparr>grupos = [], conjuntos = [], regras = []\<rparr>)"
  by (simp add: process_schema_fields_def prepare_properties_def property_rule_def
        skip_reference_def skip_array_reference_def)

text \<open>
  Claim C2, amended. In a schema of an insurance file, take a property of the processed
  property set whose fragment has the shape of the data model, and a list of required
  names. The loop emits no rule for it exactly when the fragment carries a \<^verbatim>\<open>$ref\<close> that
  does not end in \<^verbatim>\<open>/AmountDetails\<close>, or the fragment has type \<^verbatim>\<open>"array"\<close> and its
  \<^verbatim>\<open>items\<close> carry a \<^verbatim>\<open>$ref\<close>, whatever that reference names. In every other case,
  a direct reference ending in \<^verbatim>\<open>/AmountDetails\<close> included, a rule is emitted.
\<close>

theorem reference_suppression:
  assumes "distinct (map fst items)" and "(name, JDict kvs) \<in> set items"
    and "well_typed_property (JDict kvs)"
  shows "name \<notin> fst ` set (emitted_rules True (JList rs) items) \<longleftrightarrow>
           (\<exists>s. map_of kvs ''$ref'' = Some (JStr s) \<and> \<not> endswith s ''/AmountDetails'')
         \<or> (map_of kvs ''type'' = Some (JStr ''array'')
            \<and> (\<exists>ikvs. map_of kvs ''items'' = Some (JDict ikvs) \<and> map_of ikvs ''$ref'' \<noteq> None))"
proof -
  obtain sz where sz: "calculate_field_size name (JDict kvs) = Inr sz"
    using calculate_field_size_well_typed [OF assms(3)] by blast
  have "name \<notin> fst ` set (emitted_rules True (JList rs) items)
        \<longleftrightarrow> map_of (emitted_rules True (JList rs) items) name = None"
    by (simp add: map_of_eq_None_iff)
  also have "\<dots> \<longleftrightarrow> property_rule True (JList rs) name (JDict kvs) = Inr None"
    unfolding emitted_rules_key [OF assms(1,2)]
    by (simp add: property_rule_well_typed [OF assms(3)] sz extract_field_type_dict)
  also have "\<dots> \<longleftrightarrow> (\<exists>s. map_of kvs ''$ref'' = Some (JStr s) \<and> \<not> endswith s ''/AmountDetails'')
         \<or> (map_of kvs ''type'' = Some (JStr ''array'')
            \<and> (\<exists>ikvs. map_of kvs ''items'' = Some (JDict ikvs) \<and> map_of ikvs ''$ref'' \<noteq> None))"
    by (simp add: property_rule_well_typed [OF assms(3)] sz extract_field_type_dict)
  finally show ?thesis .
qed

theorem reference_suppression_witness:
  "''owner'' \<notin> fst ` set (emitted_rules True (JList [])
                   [(''owner'', JDict [(''$ref'', JStr ''#/Owner'')]),
                    (''total'', JDict [(''$ref'', JStr ''#/AmountDetails'')])])
   \<and> ''total'' \<in> fst ` set (emitted_rules True (JList [])
                   [(''owner'', JDict [(''$ref'', JStr ''#/Owner'')]),
                    (''total'', JDict [(''$ref'', JStr ''#/AmountDetails'')])])"
proof -
  let ?items = "[(''owner'', JDict [(''$ref'', JStr ''#/Owner'')]),
                 (''total'', JDict [(''$ref'', JStr ''#/AmountDetails'')])]"
  have d: "distinct (map fst ?items)" by simp
  have m1: "(''owner'', JDict [(''$ref'', JStr ''#/Owner'')]) \<in> set ?items" by simp
  have m2: "(''total'', JDict [(''$ref'', JStr ''#/AmountDetails'')]) \<in> set ?items" by simp
  have w1: "well_typed_property (JDict [(''$ref'', JStr ''#/Owner'')])"
    by (simp add: well_typed_property_def ref_is_str_def is_str_def)
  have w2: "well_typed_property (JDict [(''$ref'', JStr ''#/AmountDetails'')])"
    by (simp add: well_typed_property_def ref_is_str_def is_str_def)
  from reference_suppression [OF d m1 w1, of "[]"] reference_suppression [OF d m2 w2, of "[]"]
  show ?thesis by (simp add: endswith_def)
qed

lemma upsert_row_set: "set (snd (upsert_row x xs)) = insert x (set xs)"
proof -
  have "index_of x xs = Some i \<Longrightarrow> x \<in> set xs" for i
    by (induction xs arbitrary: i) (auto split: if_splits)
  then show ?thesis by (auto simp: upsert_row_def split: option.splits)
qed

lemma upsert_conjunto_conjuntos:
  "set (conjuntos (snd (upsert_conjunto_dados st nome gid))) = insert (nome, gid) (set (conjuntos st))"
  using upsert_row_set [of "(nome, gid)" "conjuntos st"]
  by (auto simp: upsert_conjunto_dados_def split: prod.splits)

lemma fold_upsert_regra_tables [simp]:
  "grupos (fold (\<lambda>(k, cfg) s. snd (upsert_regra_validacao s cid k cfg)) rs st) = grupos st"
  "conjuntos (fold (\<lambda>(k, cfg) s. snd (upsert_regra_validacao s cid k cfg)) rs st) = conjuntos st"
  by (induction rs arbitrary: st) (auto)

lemma process_schema_fields_tables [simp]:
  "grupos (snd (process_schema_fields st name sd cid ins)) = grupos st"
  "conjuntos (snd (process_schema_fields st name sd cid ins)) = conjuntos st"
  by (auto simp: process_schema_fields_def process_properties_eq split: sum.splits prod.splits)

lemma upsert_grupo_tables:
  assumes "upsert_grupo st nome = (gid, st1)"
  shows "conjuntos st1 = conjuntos st" and "regras st1 = regras st"
  using assms by (auto simp: upsert_grupo_def split: prod.splits)

lemma only_amount_added_iff:
  "only_amount_added kvs kvs' \<longleftrightarrow>
     filter (\<lambda>kv. \<not> amount_key (fst kv)) kvs' = filter (\<lambda>kv. \<not> amount_key (fst kv)) kvs
     \<and> (\<exists>new. map fst kvs' = map fst kvs @ new \<and> list_all amount_key new)"
proof -
  have "(take (length kvs) (map fst kvs') = map fst kvs
          \<and> list_all amount_key (drop (length kvs) (map fst kvs')))
        \<longleftrightarrow> (\<exists>new. map fst kvs' = map fst kvs @ new \<and> list_all amount_key new)"
  proof
    assume a: "take (length kvs) (map fst kvs') = map fst kvs
          \<and> list_all amount_key (drop (length kvs) (map fst kvs'))"
    have "map fst kvs' = take (length kvs) (map fst kvs') @ drop (length kvs) (map fst kvs')"
      by simp
    with a show "\<exists>new. map fst kvs' = map fst kvs @ new \<and> list_all amount_key new"
      by metis
  next
    assume "\<exists>new. map fst kvs' = map fst kvs @ new \<and> list_all amount_key new"
    then obtain new where n: "map fst kvs' = map fst kvs @ new" "list_all amount_key new" by blast
    then show "take (length kvs) (map fst kvs') = map fst kvs
          \<and> list_all amount_key (drop (length kvs) (map fst kvs'))"
      by simp
  qed
  then show ?thesis unfolding only_amount_added_def by blast
qed

lemma only_amount_added_refl: "only_amount_added kvs kvs"
  by (simp add: only_amount_added_iff)

lemma only_amount_added_trans:
  "only_amount_added a b \<Longrightarrow> only_amount_added b c \<Longrightarrow> only_amount_added a c"
  unfolding only_amount_added_iff by auto

lemma filter_update_other:
  "\<not> P k \<Longrightarrow> filter (\<lambda>kv. P (fst kv)) (AList.update k v kvs) = filter (\<lambda>kv. P (fst kv)) kvs"
  by (induction kvs) auto

lemma only_amount_added_update:
  assumes "amount_key k"
  shows "only_amount_added kvs (AList.update k v kvs)"
  unfolding only_amount_added_iff
  using assms filter_update_other [of "\<lambda>k. \<not> amount_key k" k v kvs]
  by (auto simp: update_keys)

lemma amount_key_simps [simp]:
  "amount_key (''amount_'' @ f)" "amount_key (''amount_unit_'' @ f)"
  by (simp_all add: amount_key_def)

lemma flatten_unit_frame:
  "flatten_unit items (JDict kvs) = Inr pp' \<Longrightarrow> \<exists>kvs'. pp' = JDict kvs' \<and> only_amount_added kvs kvs'"
proof (induction items arbitrary: kvs)
  case Nil
  then show ?case by (auto simp: only_amount_added_refl)
next
  case (Cons item rest)
  obtain f d where item: "item = (f, d)" by force
  from Cons.prems obtain sz where
    r: "flatten_unit rest (JDict (AList.update (''amount_unit_'' @ f)
          (JDict [(''type'', JStr ''string''), (''maxLength'', sz)]) kvs)) = Inr pp'"
    unfolding item by (auto simp: ebind_eq_Inr)
  from Cons.IH [OF r] obtain kvs' where "pp' = JDict kvs'"
    "only_amount_added (AList.update (''amount_unit_'' @ f)
          (JDict [(''type'', JStr ''string''), (''maxLength'', sz)]) kvs) kvs'" by blast
  then show ?case
    using only_amount_added_trans [OF only_amount_added_update] amount_key_simps(2) by blast
qed

lemma flatten_amount_step:
  assumes "flatten_amount ((f, d) # rest) (JDict kvs) = Inr r"
  shows "\<exists>v pp2. (pp2 = JDict (AList.update (''amount_'' @ f) v kvs)
                    \<or> (\<exists>ui. flatten_unit ui (JDict (AList.update (''amount_'' @ f) v kvs)) = Inr pp2))
                 \<and> flatten_amount rest pp2 = Inr r"
proof -
  from assms obtain sz t nested pp2 where
    n: "(if nested then
              ebind (py_get d ''properties'' (JDict [])) (\<lambda>unit_properties.
              ebind (py_items unit_properties) (\<lambda>unit_items.
              flatten_unit unit_items
                (JDict (AList.update (''amount_'' @ f) (JDict [(''type'', t), (''maxLength'', sz)]) kvs))))
            else Inr (JDict (AList.update (''amount_'' @ f) (JDict [(''type'', t), (''maxLength'', sz)]) kvs)))
         = Inr pp2"
    and r: "flatten_amount rest pp2 = Inr r"
    by (simp only: flatten_amount.simps ebind_eq_Inr py_setitem.simps sum.inject) blast
  show ?thesis
  proof (cases nested)
    case True
    with n obtain ui where "flatten_unit ui
        (JDict (AList.update (''amount_'' @ f) (JDict [(''type'', t), (''maxLength'', sz)]) kvs)) = Inr pp2"
      by (simp only: ebind_eq_Inr if_True) blast
    with r show ?thesis by blast
  next
    case False
    with n r show ?thesis by auto
  qed
qed

lemma flatten_amount_frame:
  "flatten_amount items (JDict kvs) = Inr pp' \<Longrightarrow> \<exists>kvs'. pp' = JDict kvs' \<and> only_amount_added kvs kvs'"
proof (induction items arbitrary: kvs)
  case Nil
  then show ?case by (auto simp: only_amount_added_refl)
next
  case (Cons item rest)
  obtain f d where item: "item = (f, d)" by force
  from flatten_amount_step [OF Cons.prems [unfolded item]] obtain v pp2 where
    u: "pp2 = JDict (AList.update (''amount_'' @ f) v kvs)
        \<or> (\<exists>ui. flatten_unit ui (JDict (AList.update (''amount_'' @ f) v kvs)) = Inr pp2)"
    and r: "flatten_amount rest pp2 = Inr pp'" by blast
  have step: "only_amount_added kvs (AList.update (''amount_'' @ f) v kvs)"
    by (rule only_amount_added_update) (rule amount_key_simps(1))
  have "\<exists>k2. pp2 = JDict k2 \<and> only_amount_added kvs k2"
  proof (rule disjE [OF u])
    assume "pp2 = JDict (AList.update (''amount_'' @ f) v kvs)"
    with step show ?thesis by blast
  next
    assume "\<exists>ui. flatten_unit ui (JDict (AList.update (''amount_'' @ f) v kvs)) = Inr pp2"
    then obtain ui where "flatten_unit ui (JDict (AList.update (''amount_'' @ f) v kvs)) = Inr pp2"
      by blast
    from flatten_unit_frame [OF this] obtain k2 where "pp2 = JDict k2"
      "only_amount_added (AList.update (''amount_'' @ f) v kvs) k2" by blast
    with step show ?thesis using only_amount_added_trans by blast
  qed
  then obtain k2 where k2: "pp2 = JDict k2" "only_amount_added kvs k2" by blast
  from Cons.IH [OF r [unfolded k2(1)]] k2(2) show ?case
    using only_amount_added_trans by blast
qed

lemma flatten_ref_properties_frame:
  "flatten_ref_properties items (JDict kvs) = Inr pp' \<Longrightarrow>
     \<exists>kvs'. pp' = JDict kvs' \<and> only_amount_added kvs kvs'"
proof (induction items arbitrary: kvs)
  case Nil
  then show ?case by (auto simp: only_amount_added_refl)
next
  case (Cons item rest)
  obtain f d where item: "item = (f, d)" by force
  from Cons.prems obtain pp2 where
    u: "pp2 = JDict kvs \<or> (\<exists>ai. flatten_amount ai (JDict kvs) = Inr pp2)"
    and r: "flatten_ref_properties rest pp2 = Inr pp'"
    unfolding item by (auto simp: ebind_eq_Inr split: if_splits)
  have "\<exists>k2. pp2 = JDict k2 \<and> only_amount_added kvs k2"
    using u flatten_amount_frame only_amount_added_refl by blast
  then obtain k2 where k2: "pp2 = JDict k2" "only_amount_added kvs k2" by blast
  from Cons.IH [OF r [unfolded k2(1)]] k2(2) show ?case
    using only_amount_added_trans by blast
qed

lemma flatten_all_of_frame:
  "flatten_all_of items (JDict kvs) = Inr pp' \<Longrightarrow>
     \<exists>kvs'. pp' = JDict kvs' \<and> only_amount_added kvs kvs'"
proof (induction items arbitrary: kvs)
  case Nil
  then show ?case by (auto simp: only_amount_added_refl)
next
  case (Cons item rest)
  from Cons.prems obtain pp2 where
    u: "pp2 = JDict kvs \<or> (\<exists>ri. flatten_ref_properties ri (JDict kvs) = Inr pp2)"
    and r: "flatten_all_of rest pp2 = Inr pp'"
    by (auto simp: ebind_eq_Inr split: if_splits)
  have "\<exists>k2. pp2 = JDict k2 \<and> only_amount_added kvs k2"
    using u flatten_ref_properties_frame only_amount_added_refl by blast
  then obtain k2 where k2: "pp2 = JDict k2" "only_amount_added kvs k2" by blast
  from Cons.IH [OF r [unfolded k2(1)]] k2(2) show ?case
    using only_amount_added_trans by blast
qed

lemma flatten_all_of_passed_over:
  "list_all passed_over items \<Longrightarrow> flatten_all_of items pp = Inr pp"
  by (induction items) (auto simp: passed_over_def)

lemma flatten_all_of_elements:
  "flatten_all_of items pp = Inr pp' \<Longrightarrow> list_all (\<lambda>e. passed_over e \<or> incorporated e) items"
proof (induction items arbitrary: pp)
  case Nil
  then show ?case by simp
next
  case (Cons item rest)
  from Cons.prems obtain a h pp2 where
    a: "refers_to_amount_details item = Inr a"
    and h: "(if a then py_in ''properties'' item else Inr False) = Inr h"
    and r: "flatten_all_of rest pp2 = Inr pp'"
    by (simp only: flatten_all_of.simps ebind_eq_Inr) blast
  have "passed_over item \<or> incorporated item"
    using a h by (cases a; cases h) (simp_all add: passed_over_def incorporated_def)
  with Cons.IH [OF r] show ?case by simp
qed

lemma list_all_passed_over:
  "list_all (\<lambda>e. passed_over e \<or> incorporated e) items \<Longrightarrow> \<not> list_ex incorporated items
     \<Longrightarrow> list_all passed_over items"
  by (induction items) auto

lemma flatten_unit_list: "flatten_unit ui (JList x) = Inr q \<Longrightarrow> q = JList x \<and> ui = []"
  by (cases ui) (auto simp: ebind_eq_Inr)

lemma flatten_amount_list: "flatten_amount ai (JList x) = Inr q \<Longrightarrow> q = JList x \<and> ai = []"
  by (cases ai) (auto simp: ebind_eq_Inr)

lemma flatten_ref_properties_list:
  "flatten_ref_properties ri (JList x) = Inr q \<Longrightarrow> q = JList x"
proof (induction ri)
  case Nil
  then show ?case by simp
next
  case (Cons item rest)
  obtain f d where item: "item = (f, d)" by force
  from Cons.prems obtain nested pp2 where
    n: "(if nested then
              ebind (py_get d ''properties'' (JDict [])) (\<lambda>amount_properties.
              ebind (py_items amount_properties) (\<lambda>amount_items.
              flatten_amount amount_items (JList x)))
            else Inr (JList x)) = Inr pp2"
    and r: "flatten_ref_properties rest pp2 = Inr q"
    unfolding item by (simp only: flatten_ref_properties.simps ebind_eq_Inr) blast
  have "pp2 = JList x"
    using n by (cases nested) (auto simp: ebind_eq_Inr dest: flatten_amount_list)
  with r Cons.IH show ?case by simp
qed

lemma flatten_all_of_list: "flatten_all_of es (JList x) = Inr q \<Longrightarrow> q = JList x"
proof (induction es)
  case Nil
  then show ?case by simp
next
  case (Cons item rest)
  from Cons.prems obtain h pp2 where
    n: "(if h then
              ebind (py_get item ''properties'' (JDict [])) (\<lambda>ref_properties.
              ebind (py_items ref_properties) (\<lambda>ref_items.
              flatten_ref_properties ref_items (JList x)))
            else Inr (JList x)) = Inr pp2"
    and r: "flatten_all_of rest pp2 = Inr q"
    by (simp only: flatten_all_of.simps ebind_eq_Inr) blast
  have "pp2 = JList x"
    using n by (cases h) (auto simp: ebind_eq_Inr dest: flatten_ref_properties_list)
  with r Cons.IH show ?case by simp
qed

lemma prepare_properties_frame:
  assumes "prepare_properties schema_data = Inr (required_fields, items)"
  shows "\<exists>kvs pkvs. schema_data = JDict kvs
           \<and> (case map_of kvs ''properties'' of None \<Rightarrow> JDict [] | Some p \<Rightarrow> p) = JDict pkvs
           \<and> required_fields = (case map_of kvs ''required'' of None \<Rightarrow> JList [] | Some r \<Rightarrow> r)
           \<and> only_amount_added pkvs items
           \<and> (items = pkvs
              \<or> (\<exists>elems. py_iter (case map_of kvs ''allOf'' of None \<Rightarrow> JList [] | Some a \<Rightarrow> a)
                            = Inr elems
                     \<and> list_ex incorporated elems))"
proof -
  from assms obtain meta where m: "py_copy schema_data = Inr meta"
    and g: "\<exists>r. py_get meta ''required'' (JList []) = Inr r"
    by (auto simp: prepare_properties_def ebind_eq_Inr)
  from g obtain kvs where mk: "meta = JDict kvs" by (cases meta) auto
  with m have sd: "schema_data = JDict kvs" by (cases schema_data) auto
  let ?props = "case map_of kvs ''properties'' of None \<Rightarrow> JDict [] | Some p \<Rightarrow> p"
  let ?all_of = "case map_of kvs ''allOf'' of None \<Rightarrow> JList [] | Some a \<Rightarrow> a"
  let ?req = "case map_of kvs ''required'' of None \<Rightarrow> JList [] | Some r \<Rightarrow> r"
  from assms [unfolded sd] obtain pp pp' where
    c: "py_copy ?props = Inr pp"
    and f: "(if truthy ?all_of then ebind (py_iter ?all_of) (\<lambda>elems. flatten_all_of elems pp)
             else Inr pp) = Inr pp'"
    and i: "py_items pp' = Inr items" and rq: "required_fields = ?req"
    by (auto simp: prepare_properties_def ebind_eq_Inr)
  from c have pp: "pp = ?props" by (cases ?props) auto
  from i have pp': "pp' = JDict items" by (cases pp') auto
  have "\<exists>pkvs. ?props = JDict pkvs \<and> only_amount_added pkvs items
          \<and> (items = pkvs \<or> (\<exists>elems. py_iter ?all_of = Inr elems \<and> list_ex incorporated elems))"
  proof (cases "truthy ?all_of")
    case False
    with f have "pp' = pp" by simp
    with pp pp' have "?props = JDict items" by simp
    then show ?thesis using only_amount_added_refl [of items] by blast
  next
    case True
    with f obtain elems where e: "py_iter ?all_of = Inr elems"
      and fl: "flatten_all_of elems pp = Inr pp'"
      by (auto simp: ebind_eq_Inr)
    show ?thesis
    proof (cases "list_ex incorporated elems")
      case False
      from list_all_passed_over [OF flatten_all_of_elements [OF fl] False]
      have "flatten_all_of elems pp = Inr pp" by (rule flatten_all_of_passed_over)
      with fl have "pp' = pp" by simp
      with pp pp' have "?props = JDict items" by simp
      then show ?thesis using only_amount_added_refl [of items] by blast
    next
      case ex: True
      obtain props where pd: "?props = props" by simp
      have "\<exists>pkvs. props = JDict pkvs"
      proof (cases props)
        case (JList x)
        with fl pp pp' pd flatten_all_of_list [of elems x pp'] show ?thesis by simp
      qed (use c pd in auto)
      with pd have "\<exists>pkvs. ?props = JDict pkvs" by simp
      then obtain pkvs where pk: "?props = JDict pkvs" by blast
      from flatten_all_of_frame [OF fl [unfolded pp pk]] pp' e ex pk
      show ?thesis by auto
    qed
  qed
  with sd rq show ?thesis by blast
qed

text \<open>What the test of the loop over \<^verbatim>\<open>allOf\<close> looks at: an element is incorporated
  exactly when it is a dictionary with \<^verbatim>\<open>properties\<close> whose \<^verbatim>\<open>$ref\<close> holds the text
  \<^verbatim>\<open>/AmountDetails\<close> (as a substring when the reference is a string).\<close>

lemma incorporated_explicit:
  "incorporated item \<longleftrightarrow>
     (\<exists>kvs r. item = JDict kvs \<and> map_of kvs ''$ref'' = Some r
        \<and> py_in ''/AmountDetails'' r = Inr True \<and> map_of kvs ''properties'' \<noteq> None)"
proof (cases item)
  case (JDict kvs)
  then show ?thesis
    by (cases "map_of kvs ''$ref''") (auto simp: incorporated_def refers_to_amount_details_def)
next
  case (JList xs)
  then show ?thesis
    by (auto simp: incorporated_def refers_to_amount_details_def split: if_splits)
next
  case (JStr s)
  then show ?thesis
    by (auto simp: incorporated_def refers_to_amount_details_def split: if_splits)
qed (simp_all add: incorporated_def refers_to_amount_details_def)

subsection \<open>What the flattening changes\<close>

text \<open>
  Claim C5. The claim lets the flattening add properties only for the elements of
  \<^verbatim>\<open>allOf\<close> whose reference ends in \<^verbatim>\<open>AmountDetails\<close>. The code does not do that: the
  test of the loop over \<^verbatim>\<open>allOf\<close> is \<^verbatim>\<open>"/AmountDetails" in item["$ref"]\<close>, a
  containment test, whereas the loop over the properties of the same function asks for
  \<^verbatim>\<open>ref_value.endswith("/AmountDetails")\<close>. An element that refers to a schema
  \<^verbatim>\<open>AmountDetailsV2\<close> has a reference that does not end in \<^verbatim>\<open>AmountDetails\<close>; its
  properties are incorporated all the same and the property \<^verbatim>\<open>amount_value\<close> is added,
  while a property carrying that very reference is taken by the other test to refer to
  a schema that is not \<^verbatim>\<open>AmountDetails\<close>.
\<close>

theorem reference_not_ending_flattened:
  "\<not> endswith ''#/components/schemas/AmountDetailsV2'' ''AmountDetails''
   \<and> prepare_properties
        (JDict [(''allOf'',
                 JList [JDict [(''$ref'', JStr ''#/components/schemas/AmountDetailsV2''),
                               (''properties'',
                                JDict [(''amount'',
                                        JDict [(''properties'',
                                                JDict [(''value'',
                                                        JDict [(''type'', JStr ''number'')])])])])]])])
       = Inr (JList [],
              [(''amount_value'', JDict [(''type'', JStr ''number''), (''maxLength'', JInt 10)])])
   \<and> skip_reference True (JDict [(''$ref'', JStr ''#/components/schemas/AmountDetailsV2'')])
       = Inr True"
  by code_simp

lemma update_absent: "map_of al k = None \<Longrightarrow> AList.update k v al = al @ [(k, v)]"
  by (induction al) (auto split: if_splits)

lemma sbind_simps [simp]:
  "sbind (Inl e, s) f = (Inl e, s)" "sbind (Inr u, s) f = f s"
  by (simp_all add: sbind_def)

lemma ensure_key_dict:
  "ensure_key k d (JDict kvs) = Inr (JDict (if map_of kvs k \<noteq> None then kvs else AList.update k d kvs))"
  by (simp add: ensure_key_def)

lemma inject_policy_id_present:
  assumes "(case map_of kvs ''properties'' of None \<Rightarrow> JDict [] | Some p \<Rightarrow> p) = JDict pkvs"
    and "map_of pkvs ''policyId'' \<noteq> None"
  shows "inject_policy_id (JDict kvs) = (Inr (), JDict kvs)"
  using assms by (auto simp: inject_policy_id_def)

lemma inject_policy_id_absent:
  assumes p: "(case map_of kvs ''properties'' of None \<Rightarrow> JDict [] | Some p \<Rightarrow> p) = JDict pkvs"
    and r: "(case map_of kvs ''required'' of None \<Rightarrow> JList [] | Some r \<Rightarrow> r) = JList rs"
    and a: "map_of pkvs ''policyId'' = None"
  shows "inject_policy_id (JDict kvs) =
           (Inr (), JDict (AList.update ''required''
                      (JList (if JStr ''policyId'' \<in> set rs then rs else rs @ [JStr ''policyId'']))
                      (AList.update ''properties''
                         (JDict (pkvs @ [(''policyId'', policy_id_property)])) kvs)))"
proof -
  let ?k1 = "if map_of kvs ''properties'' \<noteq> None then kvs else AList.update ''properties'' (JDict []) kvs"
  have p1: "map_of ?k1 ''properties'' = Some (JDict pkvs)"
    using p by (auto simp: update_conv' split: option.splits)
  let ?k2 = "AList.update ''properties'' (JDict (pkvs @ [(''policyId'', policy_id_property)])) kvs"
  have s2: "set_policy_id_property (JDict ?k1) = Inr (JDict ?k2)"
    using p1 by (auto simp: set_policy_id_property_def update_absent [OF a])
  have r2: "map_of ?k2 ''required'' = map_of kvs ''required''"
    by (simp add: update_conv')
  let ?k3 = "if map_of ?k2 ''required'' \<noteq> None then ?k2 else AList.update ''required'' (JList []) ?k2"
  have r3: "map_of ?k3 ''required'' = Some (JList rs)"
    using r r2 by (auto simp: update_conv' split: option.splits)
  let ?k4 = "AList.update ''required''
                      (JList (if JStr ''policyId'' \<in> set rs then rs else rs @ [JStr ''policyId''])) ?k2"
  have s4: "append_policy_id_required (JDict ?k3) = Inr (JDict ?k4)"
  proof (cases "JStr ''policyId'' \<in> set rs")
    case True
    then have "append_policy_id_required (JDict ?k3) = Inr (JDict ?k3)"
      using r3 by (simp add: append_policy_id_required_def)
    moreover have "?k4 = ?k3"
    proof (cases "map_of ?k2 ''required''")
      case None
      with r3 have "rs = []" by (simp add: update_conv')
      with True show ?thesis by simp
    next
      case (Some v)
      with r3 have "map_of ?k2 ''required'' = Some (JList rs)" by simp
      from update_triv [OF this] True Some show ?thesis by simp
    qed
    ultimately show ?thesis by simp
  next
    case False
    then show ?thesis
      using r3 by (auto simp: append_policy_id_required_def)
  qed
  have g: "ebind (py_get (JDict kvs) ''properties'' (JDict [])) (py_in ''policyId'') = Inr False"
    using p a by (auto split: option.splits)
  have m1: "modify (ensure_key ''properties'' (JDict [])) (JDict kvs) = (Inr (), JDict ?k1)"
    by (simp only: modify_def ensure_key_dict sum.case)
  have m2: "modify set_policy_id_property (JDict ?k1) = (Inr (), JDict ?k2)"
    by (simp only: modify_def s2 sum.case)
  have m3: "modify (ensure_key ''required'' (JList [])) (JDict ?k2) = (Inr (), JDict ?k3)"
    by (simp only: modify_def ensure_key_dict sum.case)
  have m4: "modify append_policy_id_required (JDict ?k3) = (Inr (), JDict ?k4)"
    by (simp only: modify_def s4 sum.case)
  show ?thesis
    unfolding inject_policy_id_def g
    by (simp only: sum.case bool.case m1 m2 m3 m4 sbind_simps)
qed

lemma emitted_rules_filter:
  "filter (\<lambda>kv. fst kv = k) (emitted_rules ins req items)
     = emitted_rules ins req (filter (\<lambda>kv. fst kv = k) items)"
  by (induction ins req items rule: emitted_rules.induct)
     (auto split: sum.splits option.splits)

lemma map_of_filter_key: "map_of (filter (\<lambda>kv. fst kv = k) xs) k = map_of xs k"
  by (induction xs) auto

lemma map_of_rev_filter_key:
  "map_of (rev xs) k = map_of (rev (filter (\<lambda>kv. fst kv = k) xs)) k"
  using map_of_filter_key [of k "rev xs"] by (simp add: rev_filter)

lemma stored_rule_after_fields:
  assumes "prepare_properties sd = Inr (req, items)"
  shows "stored_rule (snd (process_schema_fields st name sd cid ins)) cid k =
           (case map_of (rev (emitted_rules ins req (filter (\<lambda>kv. fst kv = k) items))) k of
              Some cfg \<Rightarrow> Some cfg
            | None \<Rightarrow> stored_rule st cid k)"
  using assms
  by (simp add: process_schema_fields_def process_properties_eq stored_rule_fold
        map_of_rev_filter_key [of "emitted_rules ins req items" k] emitted_rules_filter)

lemma only_amount_added_filter_key:
  assumes "only_amount_added a b" and "\<not> amount_key k"
  shows "filter (\<lambda>kv. fst kv = k) b = filter (\<lambda>kv. fst kv = k) a"
proof -
  have "filter (\<lambda>kv. fst kv = k) xs
          = filter (\<lambda>kv. fst kv = k) (filter (\<lambda>kv. \<not> amount_key (fst kv)) xs)" for xs :: "(string \<times> json) list"
    using assms(2) by (induction xs) auto
  from this [of a] this [of b] assms(1) show ?thesis
    by (simp only: only_amount_added_def)
qed

lemma filter_key_absent: "map_of xs k = None \<Longrightarrow> filter (\<lambda>kv. fst kv = k) xs = []"
  by (induction xs) (auto split: if_splits)

lemma property_rule_policy_id:
  "property_rule True (JList rs) ''policyId'' policy_id_property =
     Inr (Some \<lparr>rc_type = JStr ''string'', rc_size = JInt 100,
                rc_required = JStr ''policyId'' \<in> set rs, rc_enum_values = None\<rparr>)"
  by (simp add: property_rule_def policy_id_property_def skip_reference_def
        skip_array_reference_def extract_field_type_def calculate_field_size_def)

lemma not_amount_key_policy_id: "\<not> amount_key ''policyId''"
  by (simp add: amount_key_def)

subsection \<open>The injection of \<^verbatim>\<open>policyId\<close>\<close>

text \<open>
  Claim C1, as stated, fails: the statements that add \<^verbatim>\<open>policyId\<close> to \<^verbatim>\<open>required\<close>
  are inside the test that the property is absent. A schema of an insurance file that
  declares \<^verbatim>\<open>policyId\<close> itself and does not require it is left as it is, and its rule
  \<^verbatim>\<open>policyId\<close> is not required.
\<close>

theorem declared_policy_id_counterexample:
  "process_yaml_to_db ''specs/insurance-auto.yaml'' ''auto''
     (Inr ([], inline (JDict [(''Policy'',
                   JDict [(''properties'',
                           JDict [(''policyId'', JDict [(''type'', JStr ''string'')])])])])))
     (Inr None) \<lparr>grupos = [], conjuntos = [], regras = []\<rparr>
   = (True,
      \<lparr>grupos = [''auto''], conjuntos = [(''Policy'', 0)],
         regras = [((0, ''policyId''),
                    \<lparr>rc_type = JStr ''string'', rc_size = JInt 100, rc_required = False,
                       rc_enum_values = None\<rparr>)]\<rparr>,
      Inr ([], inline (JDict [(''Policy'',
                   JDict [(''properties'',
                           JDict [(''policyId'', JDict [(''type'', JStr ''string'')])])])])))"
  by code_simp

text \<open>
  Claim C1, amended. Take a schema whose \<^verbatim>\<open>properties\<close> are a dictionary (or absent)
  and whose \<^verbatim>\<open>required\<close> is a list (or absent). If the properties already hold
  \<^verbatim>\<open>policyId\<close>, the injection leaves the schema as it is, the \<^verbatim>\<open>required\<close> list
  included. Otherwise it adds the property \<^verbatim>\<open>policyId\<close> (type string, maximum length
  100) at the end of the property set and appends \<^verbatim>\<open>policyId\<close> to \<^verbatim>\<open>required\<close> unless
  the list already holds it; and whenever the fields of the schema so injected are
  processed without an exception, the rule stored for \<^verbatim>\<open>policyId\<close> has type string,
  size 100 and is required.
\<close>

theorem policy_id_injection:
  assumes p: "(case map_of kvs ''properties'' of None \<Rightarrow> JDict [] | Some p \<Rightarrow> p) = JDict pkvs"
    and r: "(case map_of kvs ''required'' of None \<Rightarrow> JList [] | Some r \<Rightarrow> r) = JList rs"
  shows "(map_of pkvs ''policyId'' \<noteq> None \<longrightarrow> inject_policy_id (JDict kvs) = (Inr (), JDict kvs))
   \<and> (map_of pkvs ''policyId'' = None \<longrightarrow>
        inject_policy_id (JDict kvs) =
          (Inr (), JDict (AList.update ''required''
                     (JList (if JStr ''policyId'' \<in> set rs then rs else rs @ [JStr ''policyId'']))
                     (AList.update ''properties''
                        (JDict (pkvs @ [(''policyId'', policy_id_property)])) kvs)))
        \<and> (\<forall>st name cid n st'.
              process_schema_fields st name (snd (inject_policy_id (JDict kvs))) cid True = (Inr n, st')
              \<longrightarrow> stored_rule st' cid ''policyId'' =
                    Some \<lparr>rc_type = JStr ''string'', rc_size = JInt 100, rc_required = True,
                          rc_enum_values = None\<rparr>))"
proof (intro conjI impI allI)
  assume "map_of pkvs ''policyId'' \<noteq> None"
  with p show "inject_policy_id (JDict kvs) = (Inr (), JDict kvs)"
    by (rule inject_policy_id_present)
next
  assume a: "map_of pkvs ''policyId'' = None"
  from inject_policy_id_absent [OF p r a]
  show "inject_policy_id (JDict kvs) =
          (Inr (), JDict (AList.update ''required''
                     (JList (if JStr ''policyId'' \<in> set rs then rs else rs @ [JStr ''policyId'']))
                     (AList.update ''properties''
                        (JDict (pkvs @ [(''policyId'', policy_id_property)])) kvs)))" .
next
  fix st name cid n st'
  assume a: "map_of pkvs ''policyId'' = None"
    and f: "process_schema_fields st name (snd (inject_policy_id (JDict kvs))) cid True = (Inr n, st')"
  let ?rs = "if JStr ''policyId'' \<in> set rs then rs else rs @ [JStr ''policyId'']"
  let ?kvs = "AList.update ''required'' (JList ?rs)
                (AList.update ''properties''
                   (JDict (pkvs @ [(''policyId'', policy_id_property)])) kvs)"
  have sd: "snd (inject_policy_id (JDict kvs)) = JDict ?kvs"
    using inject_policy_id_absent [OF p r a] by simp
  from f obtain req items where pr: "prepare_properties (JDict ?kvs) = Inr (req, items)"
    unfolding sd by (auto simp: process_schema_fields_def split: sum.splits prod.splits)
  from prepare_properties_frame [OF pr] obtain pk where
    pk: "(case map_of ?kvs ''properties'' of None \<Rightarrow> JDict [] | Some p \<Rightarrow> p) = JDict pk"
    and rq: "req = (case map_of ?kvs ''required'' of None \<Rightarrow> JList [] | Some r \<Rightarrow> r)"
    and oa: "only_amount_added pk items" by auto
  have pk': "pk = pkvs @ [(''policyId'', policy_id_property)]"
    using pk by (simp add: update_conv')
  have rq': "req = JList ?rs" using rq by (simp add: update_conv')
  have "filter (\<lambda>kv. fst kv = ''policyId'') items = [(''policyId'', policy_id_property)]"
    using only_amount_added_filter_key [OF oa not_amount_key_policy_id]
      filter_key_absent [OF a] by (simp add: pk')
  then have "stored_rule (snd (process_schema_fields st name (JDict ?kvs) cid True)) cid ''policyId''
        = Some \<lparr>rc_type = JStr ''string'', rc_size = JInt 100, rc_required = True,
                          rc_enum_values = None\<rparr>"
    unfolding stored_rule_after_fields [OF pr]
    by (simp add: rq' property_rule_policy_id)
  with f show "stored_rule st' cid ''policyId'' =
                    Some \<lparr>rc_type = JStr ''string'', rc_size = JInt 100, rc_required = True,
                          rc_enum_values = None\<rparr>"
    unfolding sd by simp
qed

theorem policy_id_injection_witness:
  "inject_policy_id
     (JDict [(''properties'', JDict [(''name'', JDict [(''type'', JStr ''string'')])])])
   = (Inr (),
      JDict [(''properties'',
              JDict [(''name'', JDict [(''type'', JStr ''string'')]),
                     (''policyId'', policy_id_property)]),
             (''required'', JList [JStr ''policyId''])])
   \<and> stored_rule
        (snd (process_schema_fields \<lparr>grupos = [], conjuntos = [], regras = []\<rparr> ''Resource''
               (snd (inject_policy_id
                  (JDict [(''properties'',
                           JDict [(''name'', JDict [(''type'', JStr ''string'')])])])))
               0 True))
        0 ''policyId''
      = Some \<lparr>rc_type = JStr ''string'', rc_size = JInt 100, rc_required = True,
              rc_enum_values = None\<rparr>"
proof -
  let ?kvs = "[(''properties'', JDict [(''name'', JDict [(''type'', JStr ''string'')])])]"
  let ?st = "\<lparr>grupos = [], conjuntos = [], regras = []\<rparr>"
  have p: "(case map_of ?kvs ''properties'' of None \<Rightarrow> JDict [] | Some p \<Rightarrow> p)
             = JDict [(''name'', JDict [(''type'', JStr ''string'')])]" by simp
  have r: "(case map_of ?kvs ''required'' of None \<Rightarrow> JList [] | Some r \<Rightarrow> r) = JList []" by simp
  have a: "map_of [(''name'', JDict [(''type'', JStr ''string'')])] ''policyId'' = None" by simp
  obtain n st' where f: "process_schema_fields ?st ''Resource''
      (snd (inject_policy_id (JDict ?kvs))) 0 True = (Inr n, st')"
    by (simp add: inject_policy_id_absent [OF p r a] process_schema_fields_def
          prepare_properties_def process_properties_eq)
  from policy_id_injection [OF p r] a f show ?thesis by simp
qed

lemma flatten_all_of_append:
  "flatten_all_of (xs @ ys) pp = ebind (flatten_all_of xs pp) (flatten_all_of ys)"
proof (induction xs arbitrary: pp)
  case Nil
  then show ?case by simp
next
  case (Cons x xs)
  show ?case
    by (simp add: Cons ebind_def split: sum.splits)
qed

lemma filter_key_update_same:
  "distinct (map fst al) \<Longrightarrow> filter (\<lambda>kv. fst kv = k) (AList.update k v al) = [(k, v)]"
proof (induction al)
  case Nil
  then show ?case by simp
next
  case (Cons a al)
  then show ?case
    by (auto simp: filter_empty_conv rev_image_eqI)
qed

lemma filter_key_update_other:
  "k \<noteq> k' \<Longrightarrow> filter (\<lambda>kv. fst kv = k) (AList.update k' v al) = filter (\<lambda>kv. fst kv = k) al"
  by (induction al) auto

lemma flatten_example:
  assumes "map_of ekvs ''$ref'' = Some (JStr ref)" and "str_contains ref ''/AmountDetails''"
    and "map_of ekvs ''properties'' = Some amount_example"
  shows "flatten_all_of [JDict ekvs] (JDict pkvs) =
     Inr (JDict (AList.update ''amount_unit_code'' (JDict [(''type'', JStr ''string''), (''maxLength'', JInt 3)])
                (AList.update ''amount_unit'' (JDict [(''type'', JStr ''string''), (''maxLength'', JInt 100)])
                (AList.update ''amount_value'' (JDict [(''type'', JStr ''number''), (''maxLength'', JInt 10)])
                   pkvs))))"
  using assms
  by (simp add: refers_to_amount_details_def amount_example_def calculate_field_size_def
        extract_field_type_def max_enum_length_def)


lemma prepare_properties_example:
  assumes allOf: "map_of kvs ''allOf'' = Some (JList (pre @ [JDict ekvs] @ post))"
    and pre: "list_all passed_over pre" and post: "list_all passed_over post"
    and ref: "map_of ekvs ''$ref'' = Some (JStr ref)" "str_contains ref ''/AmountDetails''"
    and eprops: "map_of ekvs ''properties'' = Some amount_example"
    and props: "(case map_of kvs ''properties'' of None \<Rightarrow> JDict [] | Some p \<Rightarrow> p) = JDict pkvs"
  shows "prepare_properties (JDict kvs) =
     Inr (case map_of kvs ''required'' of None \<Rightarrow> JList [] | Some r \<Rightarrow> r,
          AList.update ''amount_unit_code'' (JDict [(''type'', JStr ''string''), (''maxLength'', JInt 3)])
            (AList.update ''amount_unit'' (JDict [(''type'', JStr ''string''), (''maxLength'', JInt 100)])
            (AList.update ''amount_value'' (JDict [(''type'', JStr ''number''), (''maxLength'', JInt 10)])
               pkvs)))"
proof -
  have "flatten_all_of (pre @ [JDict ekvs] @ post) (JDict pkvs) =
     Inr (JDict (AList.update ''amount_unit_code'' (JDict [(''type'', JStr ''string''), (''maxLength'', JInt 3)])
                (AList.update ''amount_unit'' (JDict [(''type'', JStr ''string''), (''maxLength'', JInt 100)])
                (AList.update ''amount_value'' (JDict [(''type'', JStr ''number''), (''maxLength'', JInt 10)])
                   pkvs))))"
    by (simp only: flatten_all_of_append flatten_all_of_passed_over [OF pre]
          flatten_all_of_passed_over [OF post] flatten_example [OF ref eprops] ebind_simps)
  then show ?thesis
    using allOf props
    by (simp add: prepare_properties_def del: AList.update.simps split: option.splits)
qed

lemma property_rule_amount_value:
  "property_rule ins (JList rs) ''amount_value''
       (JDict [(''type'', JStr ''number''), (''maxLength'', JInt 10)]) =
     Inr (Some \<lparr>rc_type = JStr ''number'', rc_size = JInt 10,
                rc_required = JStr ''amount_value'' \<in> set rs, rc_enum_values = None\<rparr>)"
  by (simp add: property_rule_def skip_reference_def skip_array_reference_def
        extract_field_type_def calculate_field_size_def)

lemma property_rule_amount_unit_code:
  "property_rule ins (JList rs) ''amount_unit_code''
       (JDict [(''type'', JStr ''string''), (''maxLength'', JInt 3)]) =
     Inr (Some \<lparr>rc_type = JStr ''string'', rc_size = JInt 3,
                rc_required = JStr ''amount_unit_code'' \<in> set rs, rc_enum_values = None\<rparr>)"
  by (simp add: property_rule_def skip_reference_def skip_array_reference_def
        extract_field_type_def calculate_field_size_def)

lemma keys_kept:
  assumes "only_amount_added kvs kvs'"
  shows "fst ` set kvs \<subseteq> fst ` set kvs'"
proof -
  from assms obtain new where "map fst kvs' = map fst kvs @ new"
    unfolding only_amount_added_iff by blast
  then have "set (map fst kvs) \<subseteq> set (map fst kvs')" by simp
  then show ?thesis by simp
qed

lemma flatten_amount_names:
  "flatten_amount asub pp = Inr r \<Longrightarrow> (S, d) \<in> set asub \<Longrightarrow> py_in (''amount_'' @ S) r = Inr True"
proof (induction asub arbitrary: pp)
  case Nil
  then show ?case by simp
next
  case (Cons item rest)
  obtain f d' where item: "item = (f, d')" by force
  from Cons.prems(1) obtain kvs where pp: "pp = JDict kvs"
    unfolding item by (cases pp) (auto simp: ebind_eq_Inr)
  from flatten_amount_step [OF Cons.prems(1) [unfolded item pp]] obtain v pp2 where
    u: "pp2 = JDict (AList.update (''amount_'' @ f) v kvs)
        \<or> (\<exists>ui. flatten_unit ui (JDict (AList.update (''amount_'' @ f) v kvs)) = Inr pp2)"
    and r: "flatten_amount rest pp2 = Inr r" by blast
  have "\<exists>k2. pp2 = JDict k2 \<and> only_amount_added (AList.update (''amount_'' @ f) v kvs) k2"
    using u flatten_unit_frame only_amount_added_refl by blast
  then obtain k2 where k2: "pp2 = JDict k2"
    "only_amount_added (AList.update (''amount_'' @ f) v kvs) k2" by blast
  from flatten_amount_frame [OF r [unfolded k2(1)]] obtain kr where
    kr: "r = JDict kr" "only_amount_added k2 kr" by blast
  show ?case
  proof (cases "(S, d) = (f, d')")
    case True
    have "(''amount_'' @ f) \<in> fst ` set (AList.update (''amount_'' @ f) v kvs)"
      by (simp only: dom_update) simp
    with keys_kept [OF k2(2)] keys_kept [OF kr(2)] have "(''amount_'' @ f) \<in> fst ` set kr"
      by blast
    with True kr(1) show ?thesis
      by (simp only: py_in.simps map_of_eq_None_iff) simp
  next
    case False
    with Cons.prems(2) item have "(S, d) \<in> set rest" by auto
    from Cons.IH [OF r this] show ?thesis .
  qed
qed

lemma flatten_unit_typed_kept:
  "flatten_unit usub (JDict kvs) = Inr r \<Longrightarrow>
     \<exists>sz. map_of kvs k = Some (JDict [(''type'', JStr ''string''), (''maxLength'', sz)]) \<Longrightarrow>
     \<exists>sz. py_getitem r k = Inr (JDict [(''type'', JStr ''string''), (''maxLength'', sz)])"
proof (induction usub arbitrary: kvs)
  case Nil
  then show ?case by auto
next
  case (Cons item rest)
  obtain f d where item: "item = (f, d)" by force
  from Cons.prems(1) obtain sz where
    r: "flatten_unit rest (JDict (AList.update (''amount_unit_'' @ f)
          (JDict [(''type'', JStr ''string''), (''maxLength'', sz)]) kvs)) = Inr r"
    unfolding item by (simp only: flatten_unit.simps ebind_eq_Inr py_setitem.simps sum.inject) blast
  have "\<exists>sz'. map_of (AList.update (''amount_unit_'' @ f)
          (JDict [(''type'', JStr ''string''), (''maxLength'', sz)]) kvs) k
        = Some (JDict [(''type'', JStr ''string''), (''maxLength'', sz')])"
    using Cons.prems(2) by (simp only: update_conv') auto
  from Cons.IH [OF r this] show ?case .
qed

lemma flatten_unit_names:
  "flatten_unit usub pp = Inr r \<Longrightarrow> (U, d) \<in> set usub \<Longrightarrow>
     \<exists>sz. py_getitem r (''amount_unit_'' @ U) =
            Inr (JDict [(''type'', JStr ''string''), (''maxLength'', sz)])"
proof (induction usub arbitrary: pp)
  case Nil
  then show ?case by simp
next
  case (Cons item rest)
  obtain f d' where item: "item = (f, d')" by force
  from Cons.prems(1) obtain kvs where pp: "pp = JDict kvs"
    unfolding item by (cases pp) (auto simp: ebind_eq_Inr)
  from Cons.prems(1) obtain sz where
    r: "flatten_unit rest (JDict (AList.update (''amount_unit_'' @ f)
          (JDict [(''type'', JStr ''string''), (''maxLength'', sz)]) kvs)) = Inr r"
    unfolding item pp
    by (simp only: flatten_unit.simps ebind_eq_Inr py_setitem.simps sum.inject) blast
  show ?case
  proof (cases "(U, d) = (f, d')")
    case True
    have "\<exists>sz'. map_of (AList.update (''amount_unit_'' @ f)
          (JDict [(''type'', JStr ''string''), (''maxLength'', sz)]) kvs) (''amount_unit_'' @ f)
        = Some (JDict [(''type'', JStr ''string''), (''maxLength'', sz')])"
      by (simp only: update_conv') simp
    from flatten_unit_typed_kept [OF r this] True show ?thesis by simp
  next
    case False
    with Cons.prems(2) item have "(U, d) \<in> set rest" by auto
    from Cons.IH [OF r this] show ?thesis .
  qed
qed

subsection \<open>The rules of an incorporated \<^verbatim>\<open>AmountDetails\<close>\<close>

text \<open>
  Claim C4. Take a schema whose \<^verbatim>\<open>allOf\<close> list holds an element with a \<^verbatim>\<open>$ref\<close> to
  \<^verbatim>\<open>AmountDetails\<close> and the properties of the example (\<^verbatim>\<open>amount\<close> with \<^verbatim>\<open>value\<close>, a
  number, and \<^verbatim>\<open>unit\<close> with \<^verbatim>\<open>code\<close>, a string with the values \<^verbatim>\<open>USD\<close> and \<^verbatim>\<open>BRL\<close>),
  the other elements of the list being passed over, with declared properties of
  distinct names and a list of required names. Then \<^verbatim>\<open>process_schema_fields\<close> returns
  without an exception, in an insurance file or not, and the store holds the rule
  \<^verbatim>\<open>amount_value\<close> with type number and size 10 and the rule \<^verbatim>\<open>amount_unit_code\<close> with
  type string and size 3. In general the loop over the sub-properties of \<^verbatim>\<open>amount\<close>
  leaves a property \<^verbatim>\<open>amount_S\<close> for each sub-property \<open>S\<close>, and the loop over the
  sub-properties of \<^verbatim>\<open>unit\<close> leaves a property \<^verbatim>\<open>amount_unit_U\<close> of type string for
  each sub-property \<open>U\<close>.
\<close>

theorem amount_details_rules:
  assumes allOf: "map_of kvs ''allOf'' = Some (JList (pre @ [JDict ekvs] @ post))"
    and pre: "list_all passed_over pre" and post: "list_all passed_over post"
    and ref: "map_of ekvs ''$ref'' = Some (JStr ref)" "str_contains ref ''/AmountDetails''"
    and eprops: "map_of ekvs ''properties'' = Some amount_example"
    and props: "(case map_of kvs ''properties'' of None \<Rightarrow> JDict [] | Some p \<Rightarrow> p) = JDict pkvs"
    and dist: "distinct (map fst pkvs)"
    and req: "(case map_of kvs ''required'' of None \<Rightarrow> JList [] | Some r \<Rightarrow> r) = JList rs"
  shows "(\<exists>n st'. process_schema_fields st name (JDict kvs) cid ins = (Inr n, st')
            \<and> stored_rule st' cid ''amount_value'' =
                Some \<lparr>rc_type = JStr ''number'', rc_size = JInt 10,
                      rc_required = JStr ''amount_value'' \<in> set rs, rc_enum_values = None\<rparr>
            \<and> stored_rule st' cid ''amount_unit_code'' =
                Some \<lparr>rc_type = JStr ''string'', rc_size = JInt 3,
                      rc_required = JStr ''amount_unit_code'' \<in> set rs, rc_enum_values = None\<rparr>)
       \<and> (\<forall>asub pp r S d. flatten_amount asub pp = Inr r \<and> (S, d) \<in> set asub
              \<longrightarrow> py_in (''amount_'' @ S) r = Inr True)
       \<and> (\<forall>usub pp r U d. flatten_unit usub pp = Inr r \<and> (U, d) \<in> set usub
              \<longrightarrow> (\<exists>sz. py_getitem r (''amount_unit_'' @ U) =
                          Inr (JDict [(''type'', JStr ''string''), (''maxLength'', sz)])))"
proof -
  let ?A = "JDict [(''type'', JStr ''number''), (''maxLength'', JInt 10)]"
  let ?B = "JDict [(''type'', JStr ''string''), (''maxLength'', JInt 100)]"
  let ?C = "JDict [(''type'', JStr ''string''), (''maxLength'', JInt 3)]"
  let ?k1 = "AList.update ''amount_value'' ?A pkvs"
  let ?k2 = "AList.update ''amount_unit'' ?B ?k1"
  let ?items = "AList.update ''amount_unit_code'' ?C ?k2"
  have pr: "prepare_properties (JDict kvs) = Inr (JList rs, ?items)"
    using prepare_properties_example [OF allOf pre post ref eprops props] req by simp
  have d1: "distinct (map fst ?k1)" using dist by (rule distinct_update)
  have d2: "distinct (map fst ?k2)" using d1 by (rule distinct_update)
  have f1: "filter (\<lambda>kv. fst kv = ''amount_value'') ?items = [(''amount_value'', ?A)]"
  proof -
    have n1: "''amount_value'' \<noteq> ''amount_unit_code''" and n2: "''amount_value'' \<noteq> ''amount_unit''"
      by simp_all
    show ?thesis
      by (simp only: filter_key_update_other [OF n1] filter_key_update_other [OF n2]
            filter_key_update_same [OF dist])
  qed
  have f2: "filter (\<lambda>kv. fst kv = ''amount_unit_code'') ?items = [(''amount_unit_code'', ?C)]"
    by (rule filter_key_update_same [OF d2])
  obtain r st' where ps: "process_schema_fields st name (JDict kvs) cid ins = (r, st')" by force
  with pr obtain n where r: "r = Inr n"
    by (auto simp: process_schema_fields_def split: prod.splits)
  have s1: "stored_rule st' cid ''amount_value'' =
                Some \<lparr>rc_type = JStr ''number'', rc_size = JInt 10,
                      rc_required = JStr ''amount_value'' \<in> set rs, rc_enum_values = None\<rparr>"
    using stored_rule_after_fields [OF pr, of st name cid ins "''amount_value''"] ps
    by (simp only: f1 snd_conv) (simp add: property_rule_amount_value)
  have s2: "stored_rule st' cid ''amount_unit_code'' =
                Some \<lparr>rc_type = JStr ''string'', rc_size = JInt 3,
                      rc_required = JStr ''amount_unit_code'' \<in> set rs, rc_enum_values = None\<rparr>"
    using stored_rule_after_fields [OF pr, of st name cid ins "''amount_unit_code''"] ps
    by (simp only: f2 snd_conv) (simp add: property_rule_amount_unit_code)
  from ps r s1 s2 flatten_amount_names flatten_unit_names show ?thesis by blast
qed

theorem amount_details_rules_witness:
  "stored_rule
     (snd (process_schema_fields \<lparr>grupos = [], conjuntos = [], regras = []\<rparr> ''Payment''
            (JDict [(''allOf'',
                     JList [JDict [(''$ref'', JStr ''#/components/schemas/AmountDetails''),
                                   (''properties'', amount_example)]])])
            0 False))
     0 ''amount_value''
   = Some \<lparr>rc_type = JStr ''number'', rc_size = JInt 10, rc_required = False,
           rc_enum_values = None\<rparr>
   \<and> stored_rule
     (snd (process_schema_fields \<lparr>grupos = [], conjuntos = [], regras = []\<rparr> ''Payment''
            (JDict [(''allOf'',
                     JList [JDict [(''$ref'', JStr ''#/components/schemas/AmountDetails''),
                                   (''properties'', amount_example)]])])
            0 False))
     0 ''amount_unit_code''
   = Some \<lparr>rc_type = JStr ''string'', rc_size = JInt 3, rc_required = False,
           rc_enum_values = None\<rparr>"
proof -
  let ?ekvs = "[(''$ref'', JStr ''#/components/schemas/AmountDetails''),
                (''properties'', amount_example)]"
  let ?kvs = "[(''allOf'', JList [JDict ?ekvs])]"
  have a: "map_of ?kvs ''allOf'' = Some (JList ([] @ [JDict ?ekvs] @ []))" by simp
  have e: "list_all passed_over []" by simp
  have r1: "map_of ?ekvs ''$ref'' = Some (JStr ''#/components/schemas/AmountDetails'')" by simp
  have r2: "str_contains ''#/components/schemas/AmountDetails'' ''/AmountDetails''" by simp
  have p: "map_of ?ekvs ''properties'' = Some amount_example" by simp
  have q: "(case map_of ?kvs ''properties'' of None \<Rightarrow> JDict [] | Some p \<Rightarrow> p) = JDict []" by simp
  have d: "distinct (map fst ([] :: (string \<times> json) list))" by simp
  have rq: "(case map_of ?kvs ''required'' of None \<Rightarrow> JList [] | Some r \<Rightarrow> r) = JList []" by simp
  from amount_details_rules [OF a e e r1 r2 p q d rq,
      of "\<lparr>grupos = [], conjuntos = [], regras = []\<rparr>" "''Payment''" 0 False]
  show ?thesis by auto
qed

lemma index_of_None: "index_of x xs = None \<longleftrightarrow> x \<notin> set xs"
  by (induction xs) auto

lemma index_of_append_present: "x \<in> set xs \<Longrightarrow> index_of x (xs @ ys) = index_of x xs"
  by (induction xs) auto

lemma index_of_append_absent:
  "x \<notin> set xs \<Longrightarrow> index_of x (xs @ x # ys) = Some (length xs)"
  by (induction xs) auto

lemma index_of_Some_mem: "index_of x xs = Some i \<Longrightarrow> x \<in> set xs"
  using index_of_None [of x xs] by auto

lemma upsert_row_present: "x \<in> set xs \<Longrightarrow> snd (upsert_row x xs) = xs"
  by (auto simp: upsert_row_def index_of_None split: option.splits)

lemma upsert_row_extends: "\<exists>ys. snd (upsert_row x xs) = xs @ ys"
  by (auto simp: upsert_row_def split: option.splits)

lemma upsert_row_id_stable:
  "fst (upsert_row x (snd (upsert_row x xs) @ ys)) = fst (upsert_row x xs)"
proof (cases "index_of x xs")
  case None
  then have "x \<notin> set xs" by (simp add: index_of_None)
  from index_of_append_absent [OF this, of ys] None show ?thesis
    by (simp add: upsert_row_def)
next
  case (Some i)
  then have "x \<in> set xs" by (rule index_of_Some_mem)
  from index_of_append_present [OF this, of ys] Some show ?thesis
    by (simp add: upsert_row_def)
qed

lemma upsert_rows_set: "set (upsert_rows xs t) = set xs \<union> set t"
  by (induction xs arbitrary: t) (auto simp: upsert_row_set)

lemma upsert_rows_present: "set xs \<subseteq> set t \<Longrightarrow> upsert_rows xs t = t"
  by (induction xs arbitrary: t) (auto simp: upsert_row_present)

lemma upsert_rows_idem: "upsert_rows xs (upsert_rows xs t) = upsert_rows xs t"
  by (rule upsert_rows_present) (simp add: upsert_rows_set)

lemma upsert_row_cases: "snd (upsert_row x xs) = xs \<or> snd (upsert_row x xs) = xs @ [x]"
  by (simp add: upsert_row_def split: option.splits)

lemma upsert_rows_extends: "\<exists>ys. upsert_rows xs t = t @ ys"
proof (induction xs arbitrary: t)
  case Nil
  show ?case by simp
next
  case (Cons x xs)
  from Cons [of "snd (upsert_row x t)"] obtain zs where
    2: "upsert_rows xs (snd (upsert_row x t)) = snd (upsert_row x t) @ zs" ..
  show ?case
  proof (rule disjE [OF upsert_row_cases [of x t]])
    assume "snd (upsert_row x t) = t"
    with 2 have "upsert_rows (x # xs) t = t @ zs" by simp
    then show ?thesis ..
  next
    assume "snd (upsert_row x t) = t @ [x]"
    with 2 have "upsert_rows (x # xs) t = t @ (x # zs)" by simp
    then show ?thesis ..
  qed
qed

lemma updates_append: "updates (us @ vs) al = updates vs (updates us al)"
  by (induction us arbitrary: al) simp_all

lemma update_commute:
  assumes "k \<in> fst ` set al" and "k \<noteq> k'"
  shows "AList.update k v (AList.update k' v' al) = AList.update k' v' (AList.update k v al)"
  using assms by (induction al) auto

lemma updates_keys: "fst ` set al \<subseteq> fst ` set (updates us al)"
proof (induction us arbitrary: al)
  case Nil
  then show ?case by simp
next
  case (Cons u us)
  have "fst ` set al \<subseteq> fst ` set (AList.update (fst u) (snd u) al)"
    by (auto simp: dom_update)
  with Cons [of "AList.update (fst u) (snd u) al"] show ?case by auto
qed

lemma updates_commute:
  "k \<notin> fst ` set us \<Longrightarrow> k \<in> fst ` set al \<Longrightarrow>
     AList.update k v (updates us al) = updates us (AList.update k v al)"
proof (induction us arbitrary: al)
  case Nil
  then show ?case by simp
next
  case (Cons u us)
  from Cons.prems have ne: "k \<noteq> fst u" and nin: "k \<notin> fst ` set us" by auto
  have kin: "k \<in> fst ` set (AList.update (fst u) (snd u) al)"
    using Cons.prems(2) by (auto simp: dom_update)
  have "AList.update k v (updates (u # us) al)
        = updates us (AList.update k v (AList.update (fst u) (snd u) al))"
    using Cons.IH [OF nin kin] by simp
  also have "\<dots> = updates us (AList.update (fst u) (snd u) (AList.update k v al))"
    by (simp only: update_commute [OF Cons.prems(2) ne])
  finally show ?case by simp
qed

lemma updates_absorb:
  "k \<in> fst ` set us \<Longrightarrow> k \<in> fst ` set al \<Longrightarrow>
     updates us (AList.update k v al) = updates us al"
proof (induction us arbitrary: al)
  case Nil
  then show ?case by simp
next
  case (Cons u us)
  show ?case
  proof (cases "fst u = k")
    case True
    then show ?thesis by simp
  next
    case False
    with Cons.prems have kin: "k \<in> fst ` set us" by auto
    have kin2: "k \<in> fst ` set (AList.update (fst u) (snd u) al)"
      using Cons.prems(2) by (auto simp: dom_update)
    have "updates (u # us) (AList.update k v al)
          = updates us (AList.update (fst u) (snd u) (AList.update k v al))" by simp
    also have "\<dots> = updates us (AList.update k v (AList.update (fst u) (snd u) al))"
    proof -
      from False have "k \<noteq> fst u" by auto
      from update_commute [OF Cons.prems(2) this] show ?thesis by (simp only:)
    qed
    also have "\<dots> = updates us (AList.update (fst u) (snd u) al)"
      by (rule Cons.IH [OF kin kin2])
    finally show ?thesis by simp
  qed
qed

lemma updates_idem: "updates us (updates us al) = updates us al"
proof (induction us arbitrary: al)
  case Nil
  then show ?case by simp
next
  case (Cons u us)
  let ?B = "AList.update (fst u) (snd u) al"
  have kB: "fst u \<in> fst ` set ?B" by (auto simp: dom_update)
  have kX: "fst u \<in> fst ` set (updates us ?B)" using updates_keys [of ?B us] kB by blast
  have "updates (u # us) (updates (u # us) al)
        = updates us (AList.update (fst u) (snd u) (updates us ?B))" by simp
  also have "\<dots> = updates us (updates us ?B)"
  proof (cases "fst u \<in> fst ` set us")
    case True
    from updates_absorb [OF True kX] show ?thesis .
  next
    case False
    from updates_commute [OF False kB] show ?thesis by simp
  qed
  also have "\<dots> = updates us ?B" by (rule Cons.IH)
  finally show ?case by simp
qed

lemma regras_fold_upsert:
  "regras (fold (\<lambda>(k, cfg) s. snd (upsert_regra_validacao s cid k cfg)) rs st)
     = updates (map (\<lambda>rule. ((cid, fst rule), snd rule)) rs) (regras st)"
  by (induction rs arbitrary: st) (auto simp: regras_upsert)

lemma upsert_conjunto_eq:
  "upsert_conjunto_dados st nome gid =
     (fst (upsert_row (nome, gid) (conjuntos st)),
      st\<lparr>conjuntos := snd (upsert_row (nome, gid) (conjuntos st))\<rparr>)"
  by (simp add: upsert_conjunto_dados_def split: prod.splits)

lemma upsert_grupo_eq:
  "upsert_grupo st nome =
     (fst (upsert_row nome (grupos st)), st\<lparr>grupos := snd (upsert_row nome (grupos st))\<rparr>)"
  by (simp add: upsert_grupo_def split: prod.splits)

lemma upsert_row_again:
  "upsert_row x (snd (upsert_row x xs)) = (fst (upsert_row x xs), snd (upsert_row x xs))"
proof -
  have "x \<in> set (snd (upsert_row x xs))" by (simp add: upsert_row_set)
  then have "snd (upsert_row x (snd (upsert_row x xs))) = snd (upsert_row x xs)"
    by (rule upsert_row_present)
  moreover have "fst (upsert_row x (snd (upsert_row x xs))) = fst (upsert_row x xs)"
    using upsert_row_id_stable [of x xs "[]"] by simp
  ultimately show ?thesis by (simp add: prod_eq_iff)
qed

lemma upsert_grupo_again:
  assumes "upsert_grupo st nome = (gid, st1)" and "grupos st2 = grupos st1"
  shows "upsert_grupo st2 nome = (gid, st2)"
proof -
  from assms(1) have g: "gid = fst (upsert_row nome (grupos st))"
    and s: "grupos st1 = snd (upsert_row nome (grupos st))"
    by (auto simp: upsert_grupo_eq)
  show ?thesis
    unfolding upsert_grupo_eq assms(2) s upsert_row_again g
    using assms(2) s by simp
qed

lemma modify_Inr: "modify f s = (Inr u, s') \<longleftrightarrow> f s = Inr s'"
  by (auto simp: modify_def split: sum.splits)

lemma sbind_Inr:
  "sbind r f = (Inr u, s') \<longleftrightarrow> (\<exists>s1. r = (Inr (), s1) \<and> f s1 = (Inr u, s'))"
  by (cases r) (auto simp: sbind_def split: sum.splits)

lemma set_policy_id_property_Inr:
  "set_policy_id_property s = Inr s' \<Longrightarrow>
     \<exists>kvs pkvs. s = JDict kvs \<and> map_of kvs ''properties'' = Some (JDict pkvs)
        \<and> s' = JDict (AList.update ''properties''
                       (JDict (AList.update ''policyId'' policy_id_property pkvs)) kvs)"
proof -
  assume a: "set_policy_id_property s = Inr s'"
  then obtain kvs where s: "s = JDict kvs"
    by (cases s) (auto simp: set_policy_id_property_def)
  from a s obtain p where p: "map_of kvs ''properties'' = Some p"
    by (auto simp: set_policy_id_property_def split: option.splits)
  from a s p obtain pkvs where "p = JDict pkvs"
    by (cases p) (auto simp: set_policy_id_property_def)
  with a s p show ?thesis by (auto simp: set_policy_id_property_def)
qed

lemma append_policy_id_required_Inr:
  "append_policy_id_required s = Inr s' \<Longrightarrow>
     \<exists>kvs. s = JDict kvs \<and> (s' = s \<or> (\<exists>r. s' = JDict (AList.update ''required'' r kvs)))"
proof -
  assume a: "append_policy_id_required s = Inr s'"
  then obtain kvs where s: "s = JDict kvs"
    by (cases s) (auto simp: append_policy_id_required_def)
  with a show ?thesis
    by (auto simp: append_policy_id_required_def ebind_eq_Inr split: if_splits)
qed

lemma inject_policy_id_again:
  assumes "inject_policy_id sd = (Inr (), sd')"
  shows "inject_policy_id sd' = (Inr (), sd')"
proof (cases "ebind (py_get sd ''properties'' (JDict [])) (py_in ''policyId'')")
  case (Inl e)
  with assms show ?thesis by (simp add: inject_policy_id_def)
next
  case (Inr b)
  show ?thesis
  proof (cases b)
    case True
    with Inr assms have "sd' = sd" by (simp add: inject_policy_id_def)
    with Inr True show ?thesis by (simp add: inject_policy_id_def)
  next
    case False
    with Inr assms obtain s1 s2 s3 where
      1: "ensure_key ''properties'' (JDict []) sd = Inr s1"
      and 2: "set_policy_id_property s1 = Inr s2"
      and 3: "ensure_key ''required'' (JList []) s2 = Inr s3"
      and 4: "append_policy_id_required s3 = Inr sd'"
      by (auto simp: inject_policy_id_def sbind_Inr modify_Inr)
    from set_policy_id_property_Inr [OF 2] obtain k1 pkvs where
      s2: "s2 = JDict (AList.update ''properties''
                       (JDict (AList.update ''policyId'' policy_id_property pkvs)) k1)" by blast
    let ?P = "JDict (AList.update ''policyId'' policy_id_property pkvs)"
    have p2: "py_get s2 ''properties'' (JDict []) = Inr ?P"
      unfolding s2 by (simp add: update_conv')
    from 3 have p3: "py_get s3 ''properties'' (JDict []) = Inr ?P"
      unfolding s2 ensure_key_dict by (auto simp: update_conv')
    from append_policy_id_required_Inr [OF 4] have p4: "py_get sd' ''properties'' (JDict []) = Inr ?P"
      using p3 by (auto simp: update_conv')
    have "py_in ''policyId'' ?P = Inr True"
      by (simp add: update_conv')
    with p4 show ?thesis by (simp add: inject_policy_id_def)
  qed
qed

subsection \<open>The block that adds \<^verbatim>\<open>policyId\<close>, in place and on a tree\<close>

lemma resolve_inline: "resolve n h (inline x) = x"
proof (induction x)
  case (JList xs)
  then show ?case by (simp add: map_idI)
next
  case (JDict kvs)
  have "map (\<lambda>kv. (fst kv, resolve n h (inline (snd kv)))) kvs = kvs"
  proof (rule map_idI)
    fix kv
    assume "kv \<in> set kvs"
    with JDict [of kv "snd kv"] show "(fst kv, resolve n h (inline (snd kv))) = kv"
      by (cases kv) simp
  qed
  then show ?case by (simp add: comp_def)
qed simp_all

lemma snapshot_inline: "snapshot h (inline x) = x"
  by (simp add: snapshot_def resolve_inline)

lemma deref_inline: "deref h (inline x) = inline x"
  by (cases x) (simp_all add: deref_def)

lemma inline_eq_HStr: "HStr k = inline x \<longleftrightarrow> x = JStr k"
  by (cases x) auto

lemma map_of_inline:
  "map_of (map (\<lambda>kv. (fst kv, inline (snd kv))) kvs) k = map_option inline (map_of kvs k)"
  by (induction kvs) auto

lemma update_inline:
  "AList.update k (inline x) (map (\<lambda>kv. (fst kv, inline (snd kv))) kvs)
     = map (\<lambda>kv. (fst kv, inline (snd kv))) (AList.update k x kvs)"
  by (induction kvs) auto

lemma h_in_inline: "h_in h k (inline x) = py_in k x"
proof (cases x)
  case (JList xs)
  have "HStr k \<in> set (map (deref h) (map inline xs)) \<longleftrightarrow> JStr k \<in> set xs"
  proof
    assume "HStr k \<in> set (map (deref h) (map inline xs))"
    then obtain x where "x \<in> set xs" and "HStr k = inline x" by (auto simp: deref_inline)
    then show "JStr k \<in> set xs" by (simp add: inline_eq_HStr)
  next
    assume "JStr k \<in> set xs"
    then have "deref h (inline (JStr k)) \<in> set (map (deref h) (map inline xs))"
      by (simp only: set_map image_image) (rule imageI)
    then show "HStr k \<in> set (map (deref h) (map inline xs))" by (simp add: deref_def)
  qed
  then show ?thesis by (simp add: JList h_in_def deref_def)
qed (simp_all add: h_in_def deref_def map_of_inline)

lemma h_get_inline:
  "h_get h (inline x) k (inline d) = map_sum id inline (py_get x k d)"
  by (cases x) (simp_all add: h_get_def deref_def map_of_inline split: option.splits)

lemma h_getitem_inline:
  "h_getitem h (inline x) k = map_sum id inline (py_getitem x k)"
  by (cases x) (simp_all add: h_getitem_def deref_def map_of_inline split: option.splits)

lemma h_setitem_inline:
  "h_setitem h (inline x) k (inline y) = map_sum id (\<lambda>z. (h, inline z)) (py_setitem x k y)"
  by (cases x) (simp_all add: h_setitem_def deref_def set_object_def update_inline)

lemma h_append_inline:
  "h_append h (inline x) (inline y) = map_sum id (\<lambda>z. (h, inline z)) (py_append x y)"
  by (cases x) (simp_all add: h_append_def deref_def set_object_def)

lemma put_member_inline:
  "put_member h (inline x) k (inline m) (inline m')
     = map_sum id (\<lambda>z. (h, inline z)) (py_setitem x k m')"
  by (cases m) (simp_all add: put_member_def h_setitem_inline)

lemma ensure_key_shared_inline:
  "ensure_key_shared k (inline d) (h, inline x)
     = map_sum id (\<lambda>z. (h, inline z)) (ensure_key k d x)"
  by (cases "py_in k x")
     (simp_all add: ensure_key_shared_def ensure_key_def h_in_inline h_setitem_inline)

lemma set_policy_id_property_shared_inline:
  "set_policy_id_property_shared (h, inline x)
     = map_sum id (\<lambda>z. (h, inline z)) (set_policy_id_property x)"
proof (cases "py_getitem x ''properties''")
  case (Inl e)
  then show ?thesis
    by (simp add: set_policy_id_property_shared_def set_policy_id_property_def h_getitem_inline)
next
  case (Inr p)
  show ?thesis
    by (cases "py_setitem p ''policyId'' policy_id_property")
       (simp_all add: set_policy_id_property_shared_def set_policy_id_property_def
          h_getitem_inline Inr h_setitem_inline put_member_inline)
qed

lemma append_policy_id_required_shared_inline:
  "append_policy_id_required_shared (h, inline x)
     = map_sum id (\<lambda>z. (h, inline z)) (append_policy_id_required x)"
proof (cases "py_getitem x ''required''")
  case (Inl e)
  then show ?thesis
    by (simp add: append_policy_id_required_shared_def append_policy_id_required_def
          h_getitem_inline)
next
  case (Inr r)
  have s: "HStr ''policyId'' = inline (JStr ''policyId'')" by simp
  show ?thesis
  proof (cases "py_in ''policyId'' r")
    case (Inl e)
    with Inr show ?thesis
      by (simp add: append_policy_id_required_shared_def append_policy_id_required_def
            h_getitem_inline h_in_inline)
  next
    case present: (Inr present)
    show ?thesis
      by (cases "py_append r (JStr ''policyId'')")
         (simp_all only: append_policy_id_required_shared_def append_policy_id_required_def
            h_getitem_inline Inr h_in_inline present s h_append_inline put_member_inline
            ebind_simps map_sum.simps id_apply prod.case if_distrib [of "map_sum id _"]
            if_distrib [of "\<lambda>f. f _"] split: if_split)
  qed
qed

lemma modify_shared_inline:
  assumes "f (h, inline x) = map_sum id (\<lambda>z. (h, inline z)) (g x)"
  shows "modify_shared f (h, inline x) = (fst (modify g x), h, inline (snd (modify g x)))"
  using assms by (cases "g x") (simp_all add: modify_shared_def modify_def)

lemma sbind_shared_inline:
  assumes "r = (fst r0, h, inline (snd r0))"
    and "\<And>x. f (h, inline x) = (fst (f0 x), h, inline (snd (f0 x)))"
  shows "sbind_shared r f = (fst (sbind r0 f0), h, inline (snd (sbind r0 f0)))"
proof (cases r0)
  case (Pair a x)
  with assms show ?thesis by (cases a) (simp_all add: sbind_shared_def)
qed

text \<open>On a schema that shares no object with another place of the document, the block
  on the loaded objects is \<^verbatim>\<open>inject_policy_id\<close>, and \<^verbatim>\<open>process_schema_fields\<close> reads the
  schema itself.\<close>

lemma inject_policy_id_shared_inline:
  "inject_policy_id_shared (h, inline schema_data)
     = (fst (inject_policy_id schema_data), h, inline (snd (inject_policy_id schema_data)))"
proof -
  have g: "ebind (h_get h (inline schema_data) ''properties'' (HDict [])) (h_in h ''policyId'')
             = ebind (py_get schema_data ''properties'' (JDict [])) (py_in ''policyId'')"
    using h_get_inline [of h schema_data "''properties''" "JDict []"]
    by (cases "py_get schema_data ''properties'' (JDict [])") (simp_all add: h_in_inline)
  have e1: "ensure_key_shared ''properties'' (HDict []) (h, inline x)
              = map_sum id (\<lambda>z. (h, inline z)) (ensure_key ''properties'' (JDict []) x)" for x
    using ensure_key_shared_inline [of "''properties''" "JDict []" h x] by simp
  have e2: "ensure_key_shared ''required'' (HList []) (h, inline x)
              = map_sum id (\<lambda>z. (h, inline z)) (ensure_key ''required'' (JList []) x)" for x
    using ensure_key_shared_inline [of "''required''" "JList []" h x] by simp
  have chain: "sbind_shared (modify_shared (ensure_key_shared ''properties'' (HDict [])) (h, inline schema_data)) (\<lambda>s.
             sbind_shared (modify_shared set_policy_id_property_shared s) (\<lambda>s.
             sbind_shared (modify_shared (ensure_key_shared ''required'' (HList [])) s) (\<lambda>s.
             modify_shared append_policy_id_required_shared s)))
         = (fst (sbind (modify (ensure_key ''properties'' (JDict [])) schema_data) (\<lambda>schema_data.
                 sbind (modify set_policy_id_property schema_data) (\<lambda>schema_data.
                 sbind (modify (ensure_key ''required'' (JList [])) schema_data) (\<lambda>schema_data.
                 modify append_policy_id_required schema_data)))), h,
            inline (snd (sbind (modify (ensure_key ''properties'' (JDict [])) schema_data) (\<lambda>schema_data.
                 sbind (modify set_policy_id_property schema_data) (\<lambda>schema_data.
                 sbind (modify (ensure_key ''required'' (JList [])) schema_data) (\<lambda>schema_data.
                 modify append_policy_id_required schema_data))))))"
    by (intro sbind_shared_inline modify_shared_inline e1 e2
          set_policy_id_property_shared_inline append_policy_id_required_shared_inline)
  show ?thesis
  proof (cases "ebind (py_get schema_data ''properties'' (JDict [])) (py_in ''policyId'')")
    case (Inl e)
    with g show ?thesis by (simp add: inject_policy_id_shared_def inject_policy_id_def)
  next
    case (Inr present)
    show ?thesis
    proof (cases present)
      case True
      with Inr g show ?thesis by (simp add: inject_policy_id_shared_def inject_policy_id_def)
    next
      case False
      with Inr g chain show ?thesis by (simp add: inject_policy_id_shared_def inject_policy_id_def)
    qed
  qed
qed

lemma process_schema_inline:
  "process_schema yaml_is_insurance grupo_id schema_name (h, inline schema_data) st
     = (let (conjunto_id, st1) = upsert_conjunto_dados st schema_name grupo_id;
            (injected, schema_data') =
              (if yaml_is_insurance then inject_policy_id schema_data else (Inr (), schema_data))
        in case injected of
             Inl e \<Rightarrow> (Inl e, st1, h, inline schema_data')
           | Inr u \<Rightarrow>
               (let (fields_processed, st2) =
                      process_schema_fields st1 schema_name schema_data' conjunto_id yaml_is_insurance
                in (fields_processed, st2, h, inline schema_data')))"
  by (cases "inject_policy_id schema_data")
     (simp add: process_schema_def inject_policy_id_shared_inline snapshot_inline
        split: prod.splits sum.splits)

text \<open>Two schemas of an insurance file that share one \<^verbatim>\<open>properties\<close> dictionary (an
  anchor and an alias in the YAML source). The write of \<^verbatim>\<open>policyId\<close> made for the first
  schema is seen by the second: its test for \<^verbatim>\<open>policyId\<close> finds the property, so
  nothing is added to its \<^verbatim>\<open>required\<close>, and its rule \<^verbatim>\<open>policyId\<close> is not required.\<close>

lemma shared_properties_example:
  "process_yaml_to_db ''specs/insurance-auto.yaml'' ''auto''
     (Inr ([HDict [(''name'', HDict [(''type'', HStr ''string'')])]],
           HDict [(''A'', HDict [(''properties'', HRef 0)]),
                  (''B'', HDict [(''properties'', HRef 0)])]))
     (Inr None) \<lparr>grupos = [], conjuntos = [], regras = []\<rparr>
   = (True,
      \<lparr>grupos = [''auto''], conjuntos = [(''A'', 0), (''B'', 0)],
         regras = [((0, ''name''),
                    \<lparr>rc_type = JStr ''string'', rc_size = JInt 100, rc_required = False,
                       rc_enum_values = None\<rparr>),
                   ((0, ''policyId''),
                    \<lparr>rc_type = JStr ''string'', rc_size = JInt 100, rc_required = True,
                       rc_enum_values = None\<rparr>),
                   ((1, ''name''),
                    \<lparr>rc_type = JStr ''string'', rc_size = JInt 100, rc_required = False,
                       rc_enum_values = None\<rparr>),
                   ((1, ''policyId''),
                    \<lparr>rc_type = JStr ''string'', rc_size = JInt 100, rc_required = False,
                       rc_enum_values = None\<rparr>)]\<rparr>,
      Inr ([HDict [(''name'', HDict [(''type'', HStr ''string'')]),
                   (''policyId'', inline policy_id_property)]],
           HDict [(''A'', HDict [(''properties'', HRef 0),
                                (''required'', HList [HStr ''policyId''])]),
                  (''B'', HDict [(''properties'', HRef 0)])]))"
  by code_simp

subsection \<open>The run over the schemas\<close>

lemma process_schemas_skip:
  assumes "name = ''AmountDetails'' \<and> ins"
  shows "fst (process_schemas ins gid ((name, sd) # rest) h st p)
           = fst (process_schemas ins gid rest h st p)"
    and "fst (snd (process_schemas ins gid ((name, sd) # rest) h st p))
           = fst (snd (process_schemas ins gid rest h st p))"
    and "fst (snd (snd (process_schemas ins gid ((name, sd) # rest) h st p)))
           = fst (snd (snd (process_schemas ins gid rest h st p)))"
    and "snd (snd (snd (process_schemas ins gid ((name, sd) # rest) h st p)))
           = (name, sd) # snd (snd (snd (process_schemas ins gid rest h st p)))"
  using assms by (simp_all split: prod.splits)

lemma process_schemas_raise:
  assumes "\<not> (name = ''AmountDetails'' \<and> ins)"
    and "process_schema ins gid name (h, sd) st = (Inl e, st1, h1, sd')"
  shows "process_schemas ins gid ((name, sd) # rest) h st p = (Inl e, st1, h1, (name, sd') # rest)"
  using assms by (cases "name = ''AmountDetails''"; cases ins; simp)

lemma process_schemas_continue:
  assumes "\<not> (name = ''AmountDetails'' \<and> ins)"
    and "process_schema ins gid name (h, sd) st = (Inr k, st1, h1, sd')"
  shows "fst (process_schemas ins gid ((name, sd) # rest) h st p)
           = fst (process_schemas ins gid rest h1 st1 (if k > 0 then p @ [name] else p))"
    and "fst (snd (process_schemas ins gid ((name, sd) # rest) h st p))
           = fst (snd (process_schemas ins gid rest h1 st1 (if k > 0 then p @ [name] else p)))"
    and "fst (snd (snd (process_schemas ins gid ((name, sd) # rest) h st p)))
           = fst (snd (snd (process_schemas ins gid rest h1 st1 (if k > 0 then p @ [name] else p))))"
    and "snd (snd (snd (process_schemas ins gid ((name, sd) # rest) h st p)))
           = (name, sd') # snd (snd (snd (process_schemas ins gid rest h1 st1
                                            (if k > 0 then p @ [name] else p))))"
  using assms by (cases "name = ''AmountDetails''"; cases ins; simp split: prod.splits)+

lemma process_schema_step:
  "fst (process_schema ins gid name s st)
     = (case fst (schema_step ins s) of Inl e \<Rightarrow> Inl e | Inr rules \<Rightarrow> Inr (length rules))"
  "snd (snd (process_schema ins gid name s st)) = snd (schema_step ins s)"
  by (auto simp: process_schema_def schema_step_def upsert_conjunto_eq
        process_schema_fields_def process_properties_eq
        split: prod.splits sum.splits)

lemma process_schema_store:
  "grupos (fst (snd (process_schema ins gid name s st))) = grupos st"
  "conjuntos (fst (snd (process_schema ins gid name s st)))
     = snd (upsert_row (name, gid) (conjuntos st))"
  "regras (fst (snd (process_schema ins gid name s st)))
     = updates (map (\<lambda>rule. ((fst (upsert_row (name, gid) (conjuntos st)), fst rule), snd rule))
                 (step_rules (name, fst (schema_step ins s)))) (regras st)"
  by (auto simp: process_schema_def upsert_conjunto_eq schema_step_def step_rules_def
        process_schema_fields_def process_properties_eq regras_fold_upsert
        split: prod.splits sum.splits)

lemma schema_steps_skip:
  "skipped ins name \<Longrightarrow> schema_steps ins h ((name, sd) # rest) = schema_steps ins h rest"
  by simp

lemma schema_steps_raise:
  "\<not> skipped ins name \<Longrightarrow> schema_step ins (h, sd) = (Inl e, s') \<Longrightarrow>
     schema_steps ins h ((name, sd) # rest) = [(name, Inl e)]"
  by simp

lemma schema_steps_continue:
  "\<not> skipped ins name \<Longrightarrow> schema_step ins (h, sd) = (Inr rules, h1, sd') \<Longrightarrow>
     schema_steps ins h ((name, sd) # rest) = (name, Inr rules) # schema_steps ins h1 rest"
  by simp

lemma process_schema_cases:
  assumes "process_schema ins gid name (h, sd) st = (r, st1, h1, sd')"
  obtains (raise) e where "r = Inl e" and "schema_step ins (h, sd) = (Inl e, h1, sd')"
  | (continue) rules where "r = Inr (length rules)"
      and "schema_step ins (h, sd) = (Inr rules, h1, sd')"
proof -
  obtain q s' where ss: "schema_step ins (h, sd) = (q, s')" by (metis surj_pair)
  from assms have "r = (case q of Inl e \<Rightarrow> Inl e | Inr rules \<Rightarrow> Inr (length rules))"
    using process_schema_step(1) [of ins gid name "(h, sd)" st] ss by simp
  moreover from assms have "s' = (h1, sd')"
    using process_schema_step(2) [of ins gid name "(h, sd)" st] ss by simp
  ultimately show thesis using ss raise continue by (cases q) auto
qed

lemma process_schemas_grupos:
  "grupos (fst (snd (process_schemas ins gid items h st p))) = grupos st"
proof (induction items arbitrary: h st p)
  case Nil
  show ?case by simp
next
  case (Cons item rest)
  obtain name sd where item: "item = (name, sd)" by force
  show ?case
  proof (cases "name = ''AmountDetails'' \<and> ins")
    case True
    show ?thesis unfolding item process_schemas_skip(2) [OF True] by (rule Cons)
  next
    case False
    obtain r st1 h1 sd' where ps: "process_schema ins gid name (h, sd) st = (r, st1, h1, sd')"
      by (metis prod_cases4)
    then have g: "grupos st1 = grupos st"
      using process_schema_store(1) [of ins gid name "(h, sd)" st] by simp
    show ?thesis
    proof (cases r)
      case (Inl e)
      show ?thesis unfolding item process_schemas_raise [OF False ps [unfolded Inl]]
        using g by simp
    next
      case (Inr k)
      show ?thesis unfolding item process_schemas_continue(2) [OF False ps [unfolded Inr]]
        using g Cons by simp
    qed
  qed
qed

lemma process_schemas_conjuntos:
  "conjuntos (fst (snd (process_schemas ins gid items h st p)))
     = upsert_rows (map (\<lambda>step. (fst step, gid)) (schema_steps ins h items)) (conjuntos st)"
proof (induction items arbitrary: h st p)
  case Nil
  show ?case by simp
next
  case (Cons item rest)
  obtain name sd where item: "item = (name, sd)" by force
  show ?case
  proof (cases "name = ''AmountDetails'' \<and> ins")
    case True
    then have sk: "skipped ins name" by (simp add: skipped_def)
    show ?thesis unfolding item process_schemas_skip(2) [OF True] schema_steps_skip [OF sk]
      by (rule Cons)
  next
    case False
    then have ns: "\<not> skipped ins name" by (simp add: skipped_def)
    obtain r st1 h1 sd' where ps: "process_schema ins gid name (h, sd) st = (r, st1, h1, sd')"
      by (metis prod_cases4)
    then have c: "conjuntos st1 = snd (upsert_row (name, gid) (conjuntos st))"
      using process_schema_store(2) [of ins gid name "(h, sd)" st] by simp
    from ps show ?thesis
    proof (cases rule: process_schema_cases)
      case (raise e)
      show ?thesis
        unfolding item process_schemas_raise [OF False ps [unfolded raise(1)]]
          schema_steps_raise [OF ns raise(2)]
        using c by simp
    next
      case (continue rules)
      show ?thesis
        unfolding item process_schemas_continue(2) [OF False ps [unfolded continue(1)]]
          schema_steps_continue [OF ns continue(2)]
        using c Cons by simp
    qed
  qed
qed

lemma rule_writes_simps:
  "rule_writes gid C [] = []"
  "rule_writes gid C (step # rest) =
     map (\<lambda>rule. ((fst (upsert_row (fst step, gid) C), fst rule), snd rule)) (step_rules step)
       @ rule_writes gid C rest"
  by (simp_all add: rule_writes_def)

lemma process_schemas_regras:
  "\<exists>ys. C = conjuntos (fst (snd (process_schemas ins gid items h st p))) @ ys \<Longrightarrow>
     regras (fst (snd (process_schemas ins gid items h st p)))
       = updates (rule_writes gid C (schema_steps ins h items)) (regras st)"
proof (induction items arbitrary: h st p)
  case Nil
  show ?case by (simp add: rule_writes_simps)
next
  case (Cons item rest)
  obtain name sd where item: "item = (name, sd)" by force
  show ?case
  proof (cases "name = ''AmountDetails'' \<and> ins")
    case True
    then have sk: "skipped ins name" by (simp add: skipped_def)
    from Cons.prems have "\<exists>ys. C = conjuntos (fst (snd (process_schemas ins gid rest h st p))) @ ys"
      unfolding item process_schemas_skip(2) [OF True] .
    from Cons.IH [OF this] show ?thesis
      unfolding item process_schemas_skip(2) [OF True] schema_steps_skip [OF sk] .
  next
    case False
    then have ns: "\<not> skipped ins name" by (simp add: skipped_def)
    obtain r st1 h1 sd' where ps: "process_schema ins gid name (h, sd) st = (r, st1, h1, sd')"
      by (metis prod_cases4)
    then have c: "conjuntos st1 = snd (upsert_row (name, gid) (conjuntos st))"
      and rg: "regras st1
                 = updates (map (\<lambda>rule. ((fst (upsert_row (name, gid) (conjuntos st)), fst rule), snd rule))
                     (step_rules (name, fst (schema_step ins (h, sd))))) (regras st)"
      using process_schema_store(2,3) [of ins gid name "(h, sd)" st] by simp_all
    from ps show ?thesis
    proof (cases rule: process_schema_cases)
      case (raise e)
      from Cons.prems obtain ys where C: "C = conjuntos st1 @ ys"
        unfolding item process_schemas_raise [OF False ps [unfolded raise(1)]] by auto
      have id: "fst (upsert_row (name, gid) C) = fst (upsert_row (name, gid) (conjuntos st))"
        unfolding C c by (rule upsert_row_id_stable)
      show ?thesis
        unfolding item process_schemas_raise [OF False ps [unfolded raise(1)]]
          schema_steps_raise [OF ns raise(2)]
        using rg id raise(2) by (simp add: rule_writes_simps)
    next
      case (continue rules)
      let ?p = "if length rules > 0 then p @ [name] else p"
      from Cons.prems
      have pre: "\<exists>ys. C = conjuntos (fst (snd (process_schemas ins gid rest h1 st1 ?p))) @ ys"
        unfolding item process_schemas_continue(2) [OF False ps [unfolded continue(1)]] .
      obtain zs where "conjuntos (fst (snd (process_schemas ins gid rest h1 st1 ?p))) = conjuntos st1 @ zs"
        unfolding process_schemas_conjuntos using upsert_rows_extends by blast
      with pre obtain ys where C: "C = conjuntos st1 @ ys" by auto
      have id: "fst (upsert_row (name, gid) C) = fst (upsert_row (name, gid) (conjuntos st))"
        unfolding C c by (rule upsert_row_id_stable)
      show ?thesis
        unfolding item process_schemas_continue(2) [OF False ps [unfolded continue(1)]]
          schema_steps_continue [OF ns continue(2)]
        using Cons.IH [OF pre] rg id continue(2) by (simp add: rule_writes_simps updates_append)
    qed
  qed
qed

lemma process_schemas_pure:
  "fst (process_schemas ins gid items h st p) = fst (process_schemas ins gid' items h st' p)
   \<and> fst (snd (snd (process_schemas ins gid items h st p)))
       = fst (snd (snd (process_schemas ins gid' items h st' p)))
   \<and> snd (snd (snd (process_schemas ins gid items h st p)))
       = snd (snd (snd (process_schemas ins gid' items h st' p)))"
proof (induction items arbitrary: h st st' p)
  case Nil
  show ?case by simp
next
  case (Cons item rest)
  obtain name sd where item: "item = (name, sd)" by force
  show ?case
  proof (cases "name = ''AmountDetails'' \<and> ins")
    case True
    show ?thesis
      unfolding item process_schemas_skip [OF True] using Cons [of h st p st'] by simp
  next
    case False
    obtain r st1 h1 sd' where ps: "process_schema ins gid name (h, sd) st = (r, st1, h1, sd')"
      by (metis prod_cases4)
    obtain r2 st2 h2 sd2 where ps2: "process_schema ins gid' name (h, sd) st' = (r2, st2, h2, sd2)"
      by (metis prod_cases4)
    have "fst (process_schema ins gid' name (h, sd) st') = fst (process_schema ins gid name (h, sd) st)"
      and "snd (snd (process_schema ins gid' name (h, sd) st'))
             = snd (snd (process_schema ins gid name (h, sd) st))"
      by (simp_all add: process_schema_step)
    then have eq: "r2 = r" "h2 = h1" "sd2 = sd'"
      unfolding ps ps2 by simp_all
    show ?thesis
    proof (cases r)
      case (Inl e)
      show ?thesis
        unfolding item process_schemas_raise [OF False ps [unfolded Inl]]
          process_schemas_raise [OF False ps2 [unfolded eq Inl]] by simp
    next
      case (Inr k)
      show ?thesis
        unfolding item process_schemas_continue [OF False ps [unfolded Inr]]
          process_schemas_continue [OF False ps2 [unfolded eq Inr]]
        using Cons [of h1 st1 "if k > 0 then p @ [name] else p" st2] by simp
    qed
  qed
qed

lemma raised_simps [simp]:
  "raised (name, Inl e) = True" "raised (name, Inr rules) = False"
  by (simp_all add: raised_def)

lemma emitted_simps [simp]:
  "emitted (name, Inl e) = False" "emitted (name, Inr rules) = (rules \<noteq> [])"
  by (simp_all add: emitted_def)

lemma process_schemas_result:
  "case fst (process_schemas ins gid items h st p) of
     Inl e \<Rightarrow> list_ex raised (schema_steps ins h items)
   | Inr q \<Rightarrow> \<not> list_ex raised (schema_steps ins h items)
              \<and> q = p @ map fst (filter emitted (schema_steps ins h items))"
proof (induction items arbitrary: h st p)
  case Nil
  show ?case by simp
next
  case (Cons item rest)
  obtain name sd where item: "item = (name, sd)" by force
  show ?case
  proof (cases "name = ''AmountDetails'' \<and> ins")
    case True
    then have sk: "skipped ins name" by (simp add: skipped_def)
    show ?thesis unfolding item process_schemas_skip(1) [OF True] schema_steps_skip [OF sk]
      by (rule Cons)
  next
    case False
    then have ns: "\<not> skipped ins name" by (simp add: skipped_def)
    obtain r st1 h1 sd' where ps: "process_schema ins gid name (h, sd) st = (r, st1, h1, sd')"
      by (metis prod_cases4)
    from ps show ?thesis
    proof (cases rule: process_schema_cases)
      case (raise e)
      show ?thesis
        unfolding item process_schemas_raise [OF False ps [unfolded raise(1)]]
          schema_steps_raise [OF ns raise(2)]
        by simp
    next
      case (continue rules)
      let ?p = "if length rules > 0 then p @ [name] else p"
      have ih: "case fst (process_schemas ins gid rest h1 st1 ?p) of
                  Inl e \<Rightarrow> list_ex raised (schema_steps ins h1 rest)
                | Inr q \<Rightarrow> \<not> list_ex raised (schema_steps ins h1 rest)
                     \<and> q = ?p @ map fst (filter emitted (schema_steps ins h1 rest))"
        by (rule Cons)
      show ?thesis
        unfolding item process_schemas_continue(1) [OF False ps [unfolded continue(1)]]
          schema_steps_continue [OF ns continue(2)]
        using ih by (cases rules) (auto split: sum.splits)
    qed
  qed
qed

lemma schema_step_inline:
  "snd (schema_step ins (h, inline sd))
     = (h, inline (snd (if ins then inject_policy_id sd else (Inr (), sd))))"
  "(case fst (schema_step ins (h, inline sd)) of Inl e \<Rightarrow> Inl e | Inr rules \<Rightarrow> Inr (length rules))
     = schema_rule_count ins sd"
  by (cases "inject_policy_id sd";
      auto simp: schema_step_def schema_rule_count_def inject_policy_id_shared_inline
        snapshot_inline split: sum.splits prod.splits)+

lemma schema_steps_inline_raised:
  "list_ex raised (schema_steps ins h (map (\<lambda>kv. (fst kv, inline (snd kv))) items))
     \<longleftrightarrow> list_ex (schema_raises ins) items"
proof (induction items)
  case Nil
  show ?case by simp
next
  case (Cons item rest)
  obtain name sd where item: "item = (name, sd)" by force
  show ?case
  proof (cases "skipped ins name")
    case True
    with Cons show ?thesis by (simp add: item schema_raises_def)
  next
    case False
    obtain q s' where ss: "schema_step ins (h, inline sd) = (q, s')" by (metis surj_pair)
    from ss have s': "s' = (h, inline (snd (if ins then inject_policy_id sd else (Inr (), sd))))"
      using schema_step_inline(1) [of ins h sd] by simp
    from ss have c: "schema_rule_count ins sd
                       = (case q of Inl e \<Rightarrow> Inl e | Inr rules \<Rightarrow> Inr (length rules))"
      using schema_step_inline(2) [of ins h sd] by simp
    show ?thesis
    proof (cases q)
      case (Inl e)
      with False ss c show ?thesis by (simp add: item schema_raises_def raised_def)
    next
      case (Inr rules)
      with False ss c s' Cons show ?thesis by (simp add: item schema_raises_def raised_def)
    qed
  qed
qed

lemma schema_steps_inline_emitted:
  "\<not> list_ex (schema_raises ins) items \<Longrightarrow>
     list_ex emitted (schema_steps ins h (map (\<lambda>kv. (fst kv, inline (snd kv))) items))
       \<longleftrightarrow> list_ex (schema_emits ins) items"
proof (induction items)
  case Nil
  show ?case by simp
next
  case (Cons item rest)
  obtain name sd where item: "item = (name, sd)" by force
  from Cons.prems have nr: "\<not> schema_raises ins (name, sd)"
    and rest: "\<not> list_ex (schema_raises ins) rest"
    by (simp_all add: item)
  show ?case
  proof (cases "skipped ins name")
    case True
    with Cons.IH [OF rest] show ?thesis by (simp add: item schema_emits_def)
  next
    case False
    obtain q s' where ss: "schema_step ins (h, inline sd) = (q, s')" by (metis surj_pair)
    from ss have s': "s' = (h, inline (snd (if ins then inject_policy_id sd else (Inr (), sd))))"
      using schema_step_inline(1) [of ins h sd] by simp
    from ss have c: "schema_rule_count ins sd
                       = (case q of Inl e \<Rightarrow> Inl e | Inr rules \<Rightarrow> Inr (length rules))"
      using schema_step_inline(2) [of ins h sd] by simp
    show ?thesis
    proof (cases q)
      case (Inl e)
      with False nr c show ?thesis by (simp add: schema_raises_def)
    next
      case (Inr rules)
      with False ss c s' Cons.IH [OF rest] show ?thesis
        by (cases rules) (simp_all add: item schema_emits_def emitted_def)
    qed
  qed
qed

lemma schema_steps_names:
  "step \<in> set (schema_steps ins h items) \<Longrightarrow> \<not> skipped ins (fst step)"
proof (induction items arbitrary: h)
  case Nil
  then show ?case by simp
next
  case (Cons item rest)
  show ?case
  proof (cases "skipped ins (fst item)")
    case True
    with Cons show ?thesis by simp
  next
    case False
    obtain q h1 sd' where ss: "schema_step ins (h, snd item) = (q, h1, sd')"
      by (metis prod_cases3)
    show ?thesis
    proof (cases q)
      case (Inl e)
      with Cons.prems False ss show ?thesis by simp
    next
      case (Inr rules)
      with Cons.prems False ss have "step = (fst item, Inr rules) \<or> step \<in> set (schema_steps ins h1 rest)"
        by simp
      with False Cons.IH show ?thesis by auto
    qed
  qed
qed

subsection \<open>The dataset of \<^verbatim>\<open>AmountDetails\<close>\<close>

text \<open>
  Claim C7, as stated, fails: the schema \<^verbatim>\<open>AmountDetails\<close> is skipped only in an
  insurance file. In any other file it is upserted as a dataset like every schema.
\<close>

theorem amount_details_dataset_counterexample:
  "fst (snd (process_yaml_to_db ''specs/accounts.yaml'' ''accounts''
       (Inr ([], inline (JDict [(''AmountDetails'',
                     JDict [(''properties'',
                             JDict [(''amount'', JDict [(''type'', JStr ''string'')])])])])))
       (Inr None) \<lparr>grupos = [], conjuntos = [], regras = []\<rparr>))
   = \<lparr>grupos = [''accounts''], conjuntos = [(''AmountDetails'', 0)],
        regras = [((0, ''amount''),
                   \<lparr>rc_type = JStr ''string'', rc_size = JInt 100, rc_required = False,
                      rc_enum_values = None\<rparr>)]\<rparr>"
  by code_simp

text \<open>
  Claim C7, amended. For a document classified as insurance-related, whatever the loader
  returned, shared objects included, and whatever the store held, \<^verbatim>\<open>process_yaml_to_db\<close>
  creates no dataset named \<^verbatim>\<open>AmountDetails\<close>: the store holds such a dataset afterwards
  only if it held it before.
\<close>

theorem amount_details_dataset_not_created:
  assumes "is_insurance_related_file yaml_path"
  shows "(''AmountDetails'', g)
           \<in> set (conjuntos (fst (snd (process_yaml_to_db yaml_path api_name extracted yaml_api_name st))))
         \<longleftrightarrow> (''AmountDetails'', g) \<in> set (conjuntos st)"
proof (cases "\<exists>h schemas items api. extracted = Inr (h, schemas) \<and> h_truthy h schemas
                 \<and> yaml_api_name = Inr api \<and> h_items h schemas = Inr items")
  case False
  then show ?thesis
    by (auto simp: process_yaml_to_db_def split: sum.splits prod.splits option.splits
          dest: upsert_grupo_tables(1))
next
  case True
  then obtain h schemas items api where e: "extracted = Inr (h, schemas)" "h_truthy h schemas"
    "yaml_api_name = Inr api" "h_items h schemas = Inr items" by blast
  define nome where "nome = (case api of None \<Rightarrow> api_name | Some n \<Rightarrow> if n \<noteq> [] then n else api_name)"
  obtain gid st1 where g: "upsert_grupo st nome = (gid, st1)" by force
  then have c: "conjuntos st1 = conjuntos st" by (rule upsert_grupo_tables(1))
  have eq: "fst (snd (process_yaml_to_db yaml_path api_name extracted yaml_api_name st))
        = fst (snd (process_schemas True gid items h st1 []))"
    using e g assms by (simp add: process_yaml_to_db_def nome_def split: prod.splits)
  have "(''AmountDetails'', g) \<notin> set (map (\<lambda>step. (fst step, gid)) (schema_steps True h items))"
  proof
    assume "(''AmountDetails'', g) \<in> set (map (\<lambda>step. (fst step, gid)) (schema_steps True h items))"
    then obtain step where "step \<in> set (schema_steps True h items)" and "fst step = ''AmountDetails''"
      by auto
    with schema_steps_names [of step True h items] show False by (simp add: skipped_def)
  qed
  then show ?thesis
    unfolding eq process_schemas_conjuntos upsert_rows_set c by simp
qed

lemma is_insurance_example: "is_insurance_related_file ''specs/insurance-auto.yaml''"
  by code_simp

theorem amount_details_dataset_not_created_witness:
  "is_insurance_related_file ''specs/insurance-auto.yaml''
   \<and> (''AmountDetails'', 0)
       \<notin> set (conjuntos (fst (snd (process_yaml_to_db ''specs/insurance-auto.yaml'' ''auto''
              (Inr ([], inline (JDict [(''AmountDetails'',
                            JDict [(''properties'',
                                    JDict [(''amount'', JDict [(''type'', JStr ''string'')])])]),
                           (''Policy'',
                            JDict [(''properties'',
                                    JDict [(''holder'', JDict [(''type'', JStr ''string'')])])])])))
              (Inr None) \<lparr>grupos = [], conjuntos = [], regras = []\<rparr>))))"
  using amount_details_dataset_not_created [OF is_insurance_example, of 0 "''auto''"
      "Inr ([], inline (JDict [(''AmountDetails'',
                            JDict [(''properties'',
                                    JDict [(''amount'', JDict [(''type'', JStr ''string'')])])]),
                           (''Policy'',
                            JDict [(''properties'',
                                    JDict [(''holder'', JDict [(''type'', JStr ''string'')])])])]))"
      "Inr None" "\<lparr>grupos = [], conjuntos = [], regras = []\<rparr>"]
    is_insurance_example
  by simp

lemma h_items_iff: "h_items h v = Inr items \<longleftrightarrow> deref h v = HDict items"
  by (cases "deref h v") (simp_all add: h_items_def)

lemma h_truthy_dict: "deref h v = HDict items \<Longrightarrow> h_truthy h v \<longleftrightarrow> items \<noteq> []"
  by (simp add: h_truthy_def)

subsection \<open>The outcome of \<^verbatim>\<open>process_yaml_to_db\<close>\<close>

text \<open>
  Claim C8. \<^verbatim>\<open>process_yaml_to_db\<close> always returns a boolean; no exception leaves it. It
  returns false when the loader raises and when the loader yields no schemas. It returns
  true exactly when the loader returned a dictionary of schemas, the API name was read
  without an exception, no schema that is not skipped raised while it was processed,
  and at least one such schema emitted at least one rule. So an exception anywhere
  gives false, and so does a document none of whose schemas emitted a rule. The schemas
  are taken as the loop meets them, each with the writes of the schemas before it
  into the objects they share; in a document without shared objects each schema
  raises or emits on its own.
\<close>

theorem process_yaml_to_db_outcome:
  "(\<forall>e. extracted = Inl e \<longrightarrow>
        \<not> fst (process_yaml_to_db yaml_path api_name extracted yaml_api_name st))
   \<and> (\<forall>h schemas. extracted = Inr (h, schemas) \<and> \<not> h_truthy h schemas \<longrightarrow>
        \<not> fst (process_yaml_to_db yaml_path api_name extracted yaml_api_name st))
   \<and> (fst (process_yaml_to_db yaml_path api_name extracted yaml_api_name st) \<longleftrightarrow>
        (\<exists>h schemas items name. extracted = Inr (h, schemas) \<and> deref h schemas = HDict items
           \<and> yaml_api_name = Inr name
           \<and> \<not> list_ex raised (schema_steps (is_insurance_related_file yaml_path) h items)
           \<and> list_ex emitted (schema_steps (is_insurance_related_file yaml_path) h items)))
   \<and> (\<forall>h items. extracted = Inr (h, inline (JDict items)) \<longrightarrow>
        (fst (process_yaml_to_db yaml_path api_name extracted yaml_api_name st) \<longleftrightarrow>
           (\<exists>name. yaml_api_name = Inr name)
           \<and> \<not> list_ex (schema_raises (is_insurance_related_file yaml_path)) items
           \<and> list_ex (schema_emits (is_insurance_related_file yaml_path)) items))"
proof -
  have 1: "\<forall>e. extracted = Inl e \<longrightarrow>
        \<not> fst (process_yaml_to_db yaml_path api_name extracted yaml_api_name st)"
    by (simp add: process_yaml_to_db_def)
  have 2: "\<forall>h schemas. extracted = Inr (h, schemas) \<and> \<not> h_truthy h schemas \<longrightarrow>
        \<not> fst (process_yaml_to_db yaml_path api_name extracted yaml_api_name st)"
    by (simp add: process_yaml_to_db_def)
  have 3: "fst (process_yaml_to_db yaml_path api_name extracted yaml_api_name st) \<longleftrightarrow>
        (\<exists>h schemas items name. extracted = Inr (h, schemas) \<and> deref h schemas = HDict items
           \<and> yaml_api_name = Inr name
           \<and> \<not> list_ex raised (schema_steps (is_insurance_related_file yaml_path) h items)
           \<and> list_ex emitted (schema_steps (is_insurance_related_file yaml_path) h items))"
  proof (cases "\<exists>h schemas items name. extracted = Inr (h, schemas)
                  \<and> deref h schemas = HDict items \<and> yaml_api_name = Inr name")
    case False
    have "\<not> fst (process_yaml_to_db yaml_path api_name extracted yaml_api_name st)"
    proof (cases extracted)
      case (Inl e)
      then show ?thesis by (simp add: process_yaml_to_db_def)
    next
      case (Inr doc)
      obtain h schemas where doc: "doc = (h, schemas)" by force
      show ?thesis
      proof (cases yaml_api_name)
        case (Inl e)
        with Inr doc show ?thesis by (simp add: process_yaml_to_db_def)
      next
        case name: (Inr name)
        with Inr doc False have "\<forall>items. deref h schemas \<noteq> HDict items" by simp
        then have "\<exists>e. h_items h schemas = Inl e"
          by (cases "deref h schemas") (simp_all add: h_items_def)
        with Inr doc name show ?thesis
          by (auto simp: process_yaml_to_db_def split: prod.splits)
      qed
    qed
    with False show ?thesis by blast
  next
    case True
    then obtain h schemas items name where e: "extracted = Inr (h, schemas)"
      "deref h schemas = HDict items" "yaml_api_name = Inr name"
      by blast
    define nome where "nome = (case name of None \<Rightarrow> api_name | Some n \<Rightarrow> if n \<noteq> [] then n else api_name)"
    obtain gid st1 where g: "upsert_grupo st nome = (gid, st1)" by force
    let ?ins = "is_insurance_related_file yaml_path"
    have i: "h_items h schemas = Inr items" using e(2) by (simp add: h_items_iff)
    have "fst (process_yaml_to_db yaml_path api_name extracted yaml_api_name st) \<longleftrightarrow>
           items \<noteq> [] \<and> (case fst (process_schemas ?ins gid items h st1 []) of
               Inl e \<Rightarrow> False | Inr processed_schemas \<Rightarrow> processed_schemas \<noteq> [])"
      using e g i by (simp add: process_yaml_to_db_def nome_def h_truthy_dict split: prod.splits)
    also have "\<dots> \<longleftrightarrow> \<not> list_ex raised (schema_steps ?ins h items)
                      \<and> list_ex emitted (schema_steps ?ins h items)"
    proof -
      have "schema_steps ?ins h [] = []" by simp
      then have "items = [] \<Longrightarrow> \<not> list_ex emitted (schema_steps ?ins h items)" by simp
      then show ?thesis
        using process_schemas_result [where ins = ?ins and gid = gid and items = items
            and h = h and st = st1 and p = "[]"]
        by (auto simp: list_ex_iff filter_empty_conv split: sum.splits)
    qed
    finally show ?thesis using e by simp
  qed
  have 4: "\<forall>h items. extracted = Inr (h, inline (JDict items)) \<longrightarrow>
        (fst (process_yaml_to_db yaml_path api_name extracted yaml_api_name st) \<longleftrightarrow>
           (\<exists>name. yaml_api_name = Inr name)
           \<and> \<not> list_ex (schema_raises (is_insurance_related_file yaml_path)) items
           \<and> list_ex (schema_emits (is_insurance_related_file yaml_path)) items)"
  proof (intro allI impI)
    fix h items
    assume e: "extracted = Inr (h, inline (JDict items))"
    let ?ins = "is_insurance_related_file yaml_path"
    let ?items = "map (\<lambda>kv. (fst kv, inline (snd kv))) items"
    have d: "deref h (inline (JDict items)) = HDict ?items" by (simp add: deref_def)
    have "fst (process_yaml_to_db yaml_path api_name extracted yaml_api_name st) \<longleftrightarrow>
            (\<exists>name. yaml_api_name = Inr name)
            \<and> \<not> list_ex raised (schema_steps ?ins h ?items)
            \<and> list_ex emitted (schema_steps ?ins h ?items)"
      unfolding 3 using e d by auto
    also have "\<dots> \<longleftrightarrow> (\<exists>name. yaml_api_name = Inr name)
            \<and> \<not> list_ex (schema_raises ?ins) items \<and> list_ex (schema_emits ?ins) items"
      using schema_steps_inline_raised [of ?ins h items]
        schema_steps_inline_emitted [of ?ins items h]
      by blast
    finally show "fst (process_yaml_to_db yaml_path api_name extracted yaml_api_name st) \<longleftrightarrow>
           (\<exists>name. yaml_api_name = Inr name)
           \<and> \<not> list_ex (schema_raises ?ins) items \<and> list_ex (schema_emits ?ins) items" .
  qed
  from 1 2 3 4 show ?thesis by blast
qed

theorem process_yaml_to_db_outcome_witness:
  "fst (process_yaml_to_db ''specs/resources_v2.yaml'' ''resources''
         (Inr ([], inline (JDict [(''Resource'',
                       JDict [(''properties'',
                               JDict [(''name'', JDict [(''type'', JStr ''string''),
                                                        (''maxLength'', JInt 50)]),
                                      (''owner'', JDict [(''$ref'', JStr ''#/Owner'')])])])])))
         (Inr None) \<lparr>grupos = [], conjuntos = [], regras = []\<rparr>)
   \<and> \<not> fst (process_yaml_to_db ''specs/resources_v2.yaml'' ''resources''
         (Inr ([], inline (JDict [(''Resource'', JDict [(''properties'', JInt 7)])])))
         (Inr None) \<lparr>grupos = [], conjuntos = [], regras = []\<rparr>)
   \<and> \<not> fst (process_yaml_to_db ''specs/resources_v2.yaml'' ''resources''
         (Inl OSError) (Inr None) \<lparr>grupos = [], conjuntos = [], regras = []\<rparr>)"
proof -
  let ?good = "[(''Resource'',
                 JDict [(''properties'',
                         JDict [(''name'', JDict [(''type'', JStr ''string''),
                                                  (''maxLength'', JInt 50)]),
                                (''owner'', JDict [(''$ref'', JStr ''#/Owner'')])])])]"
  let ?bad = "[(''Resource'', JDict [(''properties'', JInt 7)])]"
  define good_items where "good_items = map (\<lambda>kv. (fst kv, inline (snd kv))) ?good"
  define bad_items where "bad_items = map (\<lambda>kv. (fst kv, inline (snd kv))) ?bad"
  have a: "\<not> list_ex raised (schema_steps (is_insurance_related_file ''specs/resources_v2.yaml'')
                [] good_items)"
    unfolding good_items_def by code_simp
  have b: "list_ex emitted (schema_steps (is_insurance_related_file ''specs/resources_v2.yaml'')
              [] good_items)"
    unfolding good_items_def by code_simp
  have c: "list_ex raised (schema_steps (is_insurance_related_file ''specs/resources_v2.yaml'')
              [] bad_items)"
    unfolding bad_items_def by code_simp
  have d: "deref [] (inline (JDict ?good)) = HDict good_items"
    "deref [] (inline (JDict ?bad)) = HDict bad_items"
    by (simp_all add: deref_def good_items_def bad_items_def)
  have "fst (process_yaml_to_db ''specs/resources_v2.yaml'' ''resources''
          (Inr ([], inline (JDict ?good))) (Inr None) \<lparr>grupos = [], conjuntos = [], regras = []\<rparr>)"
    using a b d(1)
      process_yaml_to_db_outcome [of "Inr ([], inline (JDict ?good))" "''specs/resources_v2.yaml''"
        "''resources''" "Inr None" "\<lparr>grupos = [], conjuntos = [], regras = []\<rparr>"]
    by blast
  moreover have "\<not> fst (process_yaml_to_db ''specs/resources_v2.yaml'' ''resources''
          (Inr ([], inline (JDict ?bad))) (Inr None) \<lparr>grupos = [], conjuntos = [], regras = []\<rparr>)"
  proof
    assume "fst (process_yaml_to_db ''specs/resources_v2.yaml'' ''resources''
          (Inr ([], inline (JDict ?bad))) (Inr None) \<lparr>grupos = [], conjuntos = [], regras = []\<rparr>)"
    then obtain h schemas items where "Inr ([], inline (JDict ?bad)) = Inr (h, schemas)"
      and "deref h schemas = HDict items"
      and "\<not> list_ex raised (schema_steps (is_insurance_related_file ''specs/resources_v2.yaml'') h items)"
      using process_yaml_to_db_outcome [of "Inr ([], inline (JDict ?bad))" "''specs/resources_v2.yaml''"
        "''resources''" "Inr None" "\<lparr>grupos = [], conjuntos = [], regras = []\<rparr>"]
      by blast
    then have "\<not> list_ex raised (schema_steps (is_insurance_related_file ''specs/resources_v2.yaml'') [] bad_items)"
      using d(2) by auto
    with c show False by simp
  qed
  moreover have "\<not> fst (process_yaml_to_db ''specs/resources_v2.yaml'' ''resources''
         (Inl OSError) (Inr None) \<lparr>grupos = [], conjuntos = [], regras = []\<rparr>)"
    using process_yaml_to_db_outcome [of "Inl OSError" "''specs/resources_v2.yaml''"
      "''resources''" "Inr None" "\<lparr>grupos = [], conjuntos = [], regras = []\<rparr>"]
    by blast
  ultimately show ?thesis by blast
qed

lemma process_schemas_again:
  assumes "process_schemas ins gid items h st [] = (r, st2, h', items')"
  shows "process_schemas ins gid items h st2 [] = (r, st2, h', items')"
proof -
  obtain r3 st3 h3 items3 where run2: "process_schemas ins gid items h st2 [] = (r3, st3, h3, items3)"
    by (metis prod_cases4)
  from assms run2 have pure: "r3 = r" "h3 = h'" "items3 = items'"
    using process_schemas_pure [of ins gid items h st "[]" gid st2] by simp_all
  let ?rows = "map (\<lambda>step. (fst step, gid)) (schema_steps ins h items)"
  have g: "grupos st3 = grupos st2"
    using process_schemas_grupos [of ins gid items h st2 "[]"] run2 by simp
  have c2: "conjuntos st2 = upsert_rows ?rows (conjuntos st)"
    using process_schemas_conjuntos [of ins gid items h st "[]"] assms by simp
  have c3: "conjuntos st3 = upsert_rows ?rows (conjuntos st2)"
    using process_schemas_conjuntos [of ins gid items h st2 "[]"] run2 by simp
  have c: "conjuntos st3 = conjuntos st2"
    unfolding c3 c2 by (rule upsert_rows_idem)
  have r2: "regras st2 = updates (rule_writes gid (conjuntos st2) (schema_steps ins h items)) (regras st)"
    using process_schemas_regras [of "conjuntos st2" ins gid items h st "[]"] assms by simp
  have r3: "regras st3 = updates (rule_writes gid (conjuntos st2) (schema_steps ins h items)) (regras st2)"
    using process_schemas_regras [of "conjuntos st2" ins gid items h st2 "[]"] run2 c by simp
  have rr: "regras st3 = regras st2"
    unfolding r3 unfolding r2 by (rule updates_idem)
  have "st3 = st2" using g c rr by (simp add: store.equality)
  with run2 pure show ?thesis by simp
qed

lemma process_yaml_to_db_again:
  "process_yaml_to_db yaml_path api_name extracted yaml_api_name
     (fst (snd (process_yaml_to_db yaml_path api_name extracted yaml_api_name st)))
   = process_yaml_to_db yaml_path api_name extracted yaml_api_name st"
proof -
  let ?run = "process_yaml_to_db yaml_path api_name extracted yaml_api_name"
  show "?run (fst (snd (?run st))) = ?run st"
  proof (cases "\<exists>h schemas name. extracted = Inr (h, schemas) \<and> h_truthy h schemas
                  \<and> yaml_api_name = Inr name")
    case False
    then have "?run s = (False, s, extracted)" for s
      by (cases extracted; cases yaml_api_name) (auto simp: process_yaml_to_db_def)
    then show ?thesis by simp
  next
    case True
    then obtain h schemas name where e: "extracted = Inr (h, schemas)" "h_truthy h schemas"
      "yaml_api_name = Inr name" by blast
    define nome where "nome = (case name of None \<Rightarrow> api_name | Some n \<Rightarrow> if n \<noteq> [] then n else api_name)"
    let ?ins = "is_insurance_related_file yaml_path"
    obtain gid st1 where g: "upsert_grupo st nome = (gid, st1)" by force
    show ?thesis
    proof (cases "h_items h schemas")
      case (Inl err)
      have r: "?run s = (False, snd (upsert_grupo s nome), Inr (h, schemas))" for s
        using e Inl by (simp add: process_yaml_to_db_def nome_def split: prod.splits)
      have "upsert_grupo st1 nome = (gid, st1)"
        by (rule upsert_grupo_again [OF g]) simp
      then show ?thesis using g by (simp add: r)
    next
      case (Inr items)
      obtain r st2 h' items' where run: "process_schemas ?ins gid items h st1 [] = (r, st2, h', items')"
        by (metis prod_cases4)
      have g2: "upsert_grupo st2 nome = (gid, st2)"
      proof (rule upsert_grupo_again [OF g])
        show "grupos st2 = grupos st1"
          using process_schemas_grupos [of ?ins gid items h st1 "[]"] run by simp
      qed
      have r1: "?run st = ((case r of Inl e \<Rightarrow> False | Inr ps \<Rightarrow> ps \<noteq> []), st2,
                           Inr (set_object h' schemas (HDict items')))"
        using e Inr g run by (simp add: process_yaml_to_db_def nome_def)
      have r2: "?run st2 = ((case r of Inl e \<Rightarrow> False | Inr ps \<Rightarrow> ps \<noteq> []), st2,
                           Inr (set_object h' schemas (HDict items')))"
        using e Inr g2 process_schemas_again [OF run]
        by (simp add: process_yaml_to_db_def nome_def)
      show ?thesis by (simp add: r1 r2)
    qed
  qed
qed

subsection \<open>What a run writes into the document\<close>

lemma wrote_refl: "wrote s s"
  by (simp add: wrote_def list_all2_refl written.unchanged)

lemma list_all2_written_trans:
  "list_all2 written xs ys \<Longrightarrow> list_all2 written ys zs \<Longrightarrow> list_all2 written xs zs"
  by (rule list_all2_trans [of written written written]) (rule written.again)

lemma wrote_trans: "wrote s s1 \<Longrightarrow> wrote s1 s2 \<Longrightarrow> wrote s s2"
  unfolding wrote_def using list_all2_written_trans written.again by blast

lemma set_object_wrote:
  assumes "written (deref h v) c"
  shows "wrote (h, v) (set_object h v c)"
proof (cases "\<exists>a. v = HRef a")
  case True
  then obtain a where v: "v = HRef a" by blast
  show ?thesis
  proof (cases "a < length h")
    case True
    with assms v have w: "written (h ! a) c" by (simp add: deref_def)
    have "list_all2 written (h[a := h ! a]) (h[a := c])"
      by (rule list_all2_update_cong) (simp_all add: list_all2_refl written.unchanged w)
    then show ?thesis by (simp add: v set_object_def wrote_def written.unchanged)
  next
    case False
    then have "h[a := c] = h" by (intro list_update_beyond) simp
    then show ?thesis by (simp add: v set_object_def wrote_def written.unchanged list_all2_refl)
  qed
next
  case False
  then have "deref h v = v" and "set_object h v c = (h, c)"
    by (cases v; simp add: deref_def set_object_def)+
  with assms show ?thesis by (simp add: wrote_def list_all2_refl written.unchanged)
qed

lemma deref_set_object:
  assumes "deref h v = HDict kvs \<or> deref h v = HList xs" and "\<forall>a. c \<noteq> HRef a"
  shows "deref (fst (set_object h v c)) (snd (set_object h v c)) = c"
proof (cases "\<exists>a. v = HRef a")
  case True
  then obtain a where v: "v = HRef a" by blast
  with assms(1) have "a < length h" by (auto simp: deref_def split: if_splits)
  then show ?thesis by (simp add: v set_object_def deref_def)
next
  case False
  then have "set_object h v c = (h, c)" by (cases v) (simp_all add: set_object_def)
  with assms(2) show ?thesis by (cases c) (simp_all add: deref_def)
qed

lemma member_update:
  "map_of kvs k = Some x \<Longrightarrow> written x x' \<Longrightarrow>
     list_all2 (\<lambda>kv kv'. fst kv' = fst kv \<and> written (snd kv) (snd kv')) kvs (AList.update k x' kvs)"
proof (induction kvs)
  case Nil
  then show ?case by simp
next
  case (Cons kv kvs)
  have refl: "list_all2 (\<lambda>kv kv'. fst kv' = fst kv \<and> written (snd kv) (snd kv')) kvs kvs"
    by (simp add: list_all2_refl written.unchanged)
  show ?case
  proof (cases "fst kv = k")
    case True
    with Cons.prems have "snd kv = x" by (cases kv) simp
    with True Cons.prems refl show ?thesis by (cases kv) simp
  next
    case False
    with Cons.prems have "map_of kvs k = Some x" by (cases kv) (simp split: if_splits)
    from Cons.IH [OF this Cons.prems(2)] False show ?thesis
      by (cases kv) (simp add: written.unchanged)
  qed
qed

lemma h_setitem_new:
  assumes "h_setitem h v k x = Inr s'" and "h_in h k v = Inr False"
    and "(k, x) = (''policyId'', inline policy_id_property)
         \<or> (k, x) = (''properties'', HDict []) \<or> (k, x) = (''required'', HList [])"
  shows "wrote (h, v) s'"
proof -
  from assms(1) obtain kvs where d: "deref h v = HDict kvs"
    and s': "s' = set_object h v (HDict (AList.update k x kvs))"
    by (cases "deref h v") (auto simp: h_setitem_def)
  from assms(2) d have a: "map_of kvs k = None" by (simp add: h_in_def)
  have "written (HDict kvs) (HDict (kvs @ [(k, x)]))"
    using assms(3) a
    by (auto intro: written.policy_id written.properties written.required)
  then have "written (deref h v) (HDict (AList.update k x kvs))"
    unfolding d update_absent [OF a] .
  then show ?thesis unfolding s' by (rule set_object_wrote)
qed

lemma h_setitem_member:
  assumes "h_setitem h v k x' = Inr s'" and "h_getitem h v k = Inr x" and "written x x'"
  shows "wrote (h, v) s'"
proof -
  from assms(1) obtain kvs where d: "deref h v = HDict kvs"
    and s': "s' = set_object h v (HDict (AList.update k x' kvs))"
    by (cases "deref h v") (auto simp: h_setitem_def)
  from assms(2) d have a: "map_of kvs k = Some x"
    by (auto simp: h_getitem_def split: option.splits)
  have "written (HDict kvs) (HDict (AList.update k x' kvs))"
    by (rule written.member) (rule member_update [OF a assms(3)])
  then show ?thesis unfolding s' d [symmetric] by (rule set_object_wrote)
qed

lemma put_member_wrote:
  assumes w: "written (deref h member) c"
    and g: "h_getitem h v k = Inr member"
    and p: "put_member (fst (set_object h member c)) v k member (snd (set_object h member c)) = Inr s'"
  shows "wrote (h, v) s'"
proof (cases "\<exists>a. member = HRef a")
  case True
  with p have "s' = (fst (set_object h member c), v)" by (auto simp: put_member_def)
  with set_object_wrote [OF w] show ?thesis by (simp add: wrote_def written.unchanged)
next
  case False
  then have m: "deref h member = member" and so: "set_object h member c = (h, c)"
    by (cases member; simp add: deref_def set_object_def)+
  from False p have s: "h_setitem h v k c = Inr s'"
    unfolding so by (cases member) (simp_all add: put_member_def)
  from w have "written member c" unfolding m .
  with s g show ?thesis by (rule h_setitem_member)
qed

lemma ensure_key_shared_wrote:
  assumes "ensure_key_shared k dflt s = Inr s'"
    and "(k, dflt) = (''properties'', HDict []) \<or> (k, dflt) = (''required'', HList [])"
  shows "wrote s s'"
proof -
  obtain h v where s: "s = (h, v)" by force
  from assms(1) obtain present where i: "h_in h k v = Inr present"
    and r: "(if present then Inr (h, v) else h_setitem h v k dflt) = Inr s'"
    unfolding s by (auto simp: ensure_key_shared_def ebind_eq_Inr)
  show ?thesis
  proof (cases present)
    case True
    with r show ?thesis by (simp add: s wrote_refl)
  next
    case False
    with r have "h_setitem h v k dflt = Inr s'" by simp
    then show ?thesis unfolding s
      by (rule h_setitem_new) (use i False assms(2) in auto)
  qed
qed

lemma ensure_properties_absent:
  assumes e: "ensure_key_shared ''properties'' (HDict []) (h, v) = Inr (h1, v1)"
    and g: "ebind (h_get h v ''properties'' (HDict [])) (h_in h ''policyId'') = Inr False"
    and p: "h_getitem h1 v1 ''properties'' = Inr p"
  shows "h_in h1 ''policyId'' p = Inr False"
proof -
  from g obtain p0 where g0: "h_get h v ''properties'' (HDict []) = Inr p0"
    and i0: "h_in h ''policyId'' p0 = Inr False"
    by (auto simp: ebind_eq_Inr)
  from g0 obtain kvs where d: "deref h v = HDict kvs"
    and p0: "p0 = (case map_of kvs ''properties'' of None \<Rightarrow> HDict [] | Some x \<Rightarrow> x)"
    by (cases "deref h v") (auto simp: h_get_def)
  show ?thesis
  proof (cases "map_of kvs ''properties''")
    case (Some x)
    with e d have "(h1, v1) = (h, v)"
      by (simp add: ensure_key_shared_def h_in_def)
    with p d Some p0 i0 show ?thesis by (simp add: h_getitem_def)
  next
    case None
    let ?c = "HDict (AList.update ''properties'' (HDict []) kvs)"
    from e d None have s1: "(h1, v1) = set_object h v ?c"
      by (simp add: ensure_key_shared_def h_in_def h_setitem_def)
    have "deref (fst (set_object h v ?c)) (snd (set_object h v ?c)) = ?c"
      by (rule deref_set_object [where kvs = kvs and xs = "[]"]) (simp_all add: d)
    with s1 have "deref h1 v1 = ?c" by (metis fst_conv snd_conv)
    with p have "p = HDict []" by (simp add: h_getitem_def update_conv')
    then show ?thesis by (simp add: h_in_def deref_def)
  qed
qed

lemma set_policy_id_property_shared_wrote:
  assumes s: "set_policy_id_property_shared (h, v) = Inr s'"
    and a: "\<And>p. h_getitem h v ''properties'' = Inr p \<Longrightarrow> h_in h ''policyId'' p = Inr False"
  shows "wrote (h, v) s'"
proof -
  from s obtain p hp where g: "h_getitem h v ''properties'' = Inr p"
    and w: "h_setitem h p ''policyId'' (inline policy_id_property) = Inr hp"
    and m: "put_member (fst hp) v ''properties'' p (snd hp) = Inr s'"
    by (auto simp: set_policy_id_property_shared_def ebind_eq_Inr split: prod.splits)
  from w obtain pkvs where d: "deref h p = HDict pkvs"
    and hp: "hp = set_object h p (HDict (AList.update ''policyId'' (inline policy_id_property) pkvs))"
    by (cases "deref h p") (auto simp: h_setitem_def)
  from a [OF g] d have n: "map_of pkvs ''policyId'' = None" by (simp add: h_in_def)
  have "written (deref h p) (HDict (AList.update ''policyId'' (inline policy_id_property) pkvs))"
    unfolding d update_absent [OF n] by (rule written.policy_id [OF n])
  then show ?thesis using g m [unfolded hp] by (rule put_member_wrote)
qed

lemma append_policy_id_required_shared_wrote:
  assumes s: "append_policy_id_required_shared (h, v) = Inr s'"
  shows "wrote (h, v) s'"
proof -
  from s obtain r present where g: "h_getitem h v ''required'' = Inr r"
    and i: "h_in h ''policyId'' r = Inr present"
    and c: "(if present then Inr (h, v)
             else ebind (h_append h r (HStr ''policyId'')) (\<lambda>(h', required').
                  put_member h' v ''required'' r required')) = Inr s'"
    by (auto simp: append_policy_id_required_shared_def ebind_eq_Inr)
  show ?thesis
  proof (cases present)
    case True
    with c show ?thesis by (simp add: wrote_refl)
  next
    case False
    with c obtain hr where w: "h_append h r (HStr ''policyId'') = Inr hr"
      and m: "put_member (fst hr) v ''required'' r (snd hr) = Inr s'"
      by (auto simp: ebind_eq_Inr split: prod.splits)
    from w obtain xs where d: "deref h r = HList xs"
      and hr: "hr = set_object h r (HList (xs @ [HStr ''policyId'']))"
      by (cases "deref h r") (auto simp: h_append_def)
    have "written (deref h r) (HList (xs @ [HStr ''policyId'']))"
      unfolding d by (rule written.appended)
    then show ?thesis using g m [unfolded hr] by (rule put_member_wrote)
  qed
qed

lemma inject_policy_id_shared_wrote: "wrote s (snd (inject_policy_id_shared s))"
proof -
  obtain h v where s: "s = (h, v)" by force
  show ?thesis
  proof (cases "ebind (h_get h v ''properties'' (HDict [])) (h_in h ''policyId'')")
    case (Inl e)
    then show ?thesis by (simp add: s inject_policy_id_shared_def wrote_refl)
  next
    case (Inr present)
    show ?thesis
    proof (cases present)
      case True
      with Inr show ?thesis by (simp add: s inject_policy_id_shared_def wrote_refl)
    next
      case False
      with Inr
      have guard: "ebind (h_get h v ''properties'' (HDict [])) (h_in h ''policyId'') = Inr False"
        by simp
      show ?thesis
      proof (cases "ensure_key_shared ''properties'' (HDict []) s")
        case (Inl e)
        with guard show ?thesis
          by (simp add: s inject_policy_id_shared_def modify_shared_def sbind_shared_def wrote_refl)
      next
        case 1: (Inr s1)
        obtain h1 v1 where s1: "s1 = (h1, v1)" by force
        have w1: "wrote s s1" by (rule ensure_key_shared_wrote [OF 1]) simp
        show ?thesis
        proof (cases "set_policy_id_property_shared s1")
          case (Inl e)
          with guard 1 w1 show ?thesis
            by (simp add: s inject_policy_id_shared_def modify_shared_def sbind_shared_def)
        next
          case 2: (Inr s2)
          have "wrote s1 s2"
            using 2 unfolding s1
            by (rule set_policy_id_property_shared_wrote)
               (rule ensure_properties_absent [OF 1 [unfolded s s1] guard])
          with w1 have w2: "wrote s s2" by (rule wrote_trans)
          show ?thesis
          proof (cases "ensure_key_shared ''required'' (HList []) s2")
            case (Inl e)
            with guard 1 2 w2 show ?thesis
              by (simp add: s inject_policy_id_shared_def modify_shared_def sbind_shared_def)
          next
            case 3: (Inr s3)
            have "wrote s2 s3" by (rule ensure_key_shared_wrote [OF 3]) simp
            with w2 have w3: "wrote s s3" by (rule wrote_trans)
            show ?thesis
            proof (cases "append_policy_id_required_shared s3")
              case (Inl e)
              with guard 1 2 3 w3 show ?thesis
                by (simp add: s inject_policy_id_shared_def modify_shared_def sbind_shared_def)
            next
              case 4: (Inr s4)
              obtain h3 v3 where s3: "s3 = (h3, v3)" by force
              have "wrote s3 s4"
                using 4 unfolding s3 by (rule append_policy_id_required_shared_wrote)
              with w3 have "wrote s s4" by (rule wrote_trans)
              with guard 1 2 3 4 show ?thesis
                by (simp add: s inject_policy_id_shared_def modify_shared_def sbind_shared_def)
            qed
          qed
        qed
      qed
    qed
  qed
qed

lemma schema_step_doc:
  "snd (schema_step ins s) = (if ins then snd (inject_policy_id_shared s) else s)"
  by (auto simp: schema_step_def split: prod.splits sum.splits)

lemma schema_step_wrote: "wrote s (snd (schema_step ins s))"
  by (simp add: schema_step_doc inject_policy_id_shared_wrote wrote_refl)

lemma schema_written_refl: "list_all2 (schema_written ins) items items"
  by (simp add: list_all2_refl schema_written_def written.unchanged)

lemma process_schemas_wrote:
  "list_all2 written h (fst (snd (snd (process_schemas ins gid items h st p))))
   \<and> list_all2 (schema_written ins) items (snd (snd (snd (process_schemas ins gid items h st p))))"
proof (induction items arbitrary: h st p)
  case Nil
  show ?case by (simp add: list_all2_refl written.unchanged)
next
  case (Cons item rest)
  obtain name sd where item: "item = (name, sd)" by force
  show ?case
  proof (cases "name = ''AmountDetails'' \<and> ins")
    case True
    then have "schema_written ins (name, sd) (name, sd)"
      by (simp add: schema_written_def written.unchanged)
    then show ?thesis
      unfolding item process_schemas_skip [OF True] using Cons [of h st p] by simp
  next
    case False
    then have ns: "\<not> skipped ins name" by (simp add: skipped_def)
    obtain r st1 h1 sd' where ps: "process_schema ins gid name (h, sd) st = (r, st1, h1, sd')"
      by (metis prod_cases4)
    then have "(h1, sd') = snd (schema_step ins (h, sd))"
      using process_schema_step(2) [of ins gid name "(h, sd)" st] by simp
    then have "wrote (h, sd) (h1, sd')" by (simp add: schema_step_wrote)
    then have w: "list_all2 written h h1" and i: "schema_written ins (name, sd) (name, sd')"
      using ns by (simp_all add: wrote_def schema_written_def)
    show ?thesis
    proof (cases r)
      case (Inl e)
      show ?thesis
        unfolding item process_schemas_raise [OF False ps [unfolded Inl]]
        using w i by (simp add: schema_written_refl)
    next
      case (Inr k)
      let ?p = "if k > 0 then p @ [name] else p"
      have a: "list_all2 written h1 (fst (snd (snd (process_schemas ins gid rest h1 st1 ?p))))"
        and r: "list_all2 (schema_written ins) rest
                  (snd (snd (snd (process_schemas ins gid rest h1 st1 ?p))))"
        using Cons [of h1 st1 ?p] by simp_all
      from w a have "list_all2 written h (fst (snd (snd (process_schemas ins gid rest h1 st1 ?p))))"
        by (rule list_all2_written_trans)
      with r i show ?thesis
        unfolding item process_schemas_continue [OF False ps [unfolded Inr]] by simp
    qed
  qed
qed





subsection \<open>The loaded document after processing\<close>




subsection \<open>The injection applied twice\<close>

lemma modify_shared_Inr: "modify_shared f s = (Inr u, s') \<longleftrightarrow> f s = Inr s'"
  by (auto simp: modify_shared_def split: sum.splits)

lemma sbind_shared_Inr:
  "sbind_shared r f = (Inr u, s') \<longleftrightarrow> (\<exists>s1. r = (Inr (), s1) \<and> f s1 = (Inr u, s'))"
  by (cases r) (auto simp: sbind_shared_def split: sum.splits)

lemma holds_policy_id_guard:
  assumes "holds_policy_id (h, v)"
  shows "ebind (h_get h v ''properties'' (HDict [])) (h_in h ''policyId'') = Inr True"
  using assms by (auto simp: holds_policy_id_def h_get_def h_in_def)

lemma deref_after_set_object:
  assumes "deref h v = HDict kvs"
  shows "deref (fst (set_object h v (HDict kvs'))) w
           = (if (\<exists>a. v = HRef a \<and> w = HRef a) then HDict kvs' else deref h w)"
proof (cases "\<exists>a. v = HRef a")
  case True
  then obtain a where v: "v = HRef a" by blast
  with assms have a: "a < length h" by (auto simp: deref_def split: if_splits)
  show ?thesis
  proof (cases "\<exists>b. w = HRef b")
    case True
    then obtain b where w: "w = HRef b" by blast
    show ?thesis using a by (simp add: v w set_object_def deref_def nth_list_update)
  next
    case False
    then show ?thesis by (cases w) (simp_all add: v set_object_def deref_def)
  qed
next
  case False
  then have "set_object h v (HDict kvs') = (h, HDict kvs')"
    by (cases v) (simp_all add: set_object_def)
  with False show ?thesis by auto
qed

lemma h_setitem_holds:
  assumes q: "holds_policy_id (h, v)" and s: "h_setitem h v k x = Inr s'"
    and k: "k \<noteq> ''properties''"
  shows "holds_policy_id s'"
proof -
  from q obtain kvs p pkvs where d: "deref h v = HDict kvs"
    and p: "map_of kvs ''properties'' = Some p"
    and dp: "deref h p = HDict pkvs" and a: "map_of pkvs ''policyId'' \<noteq> None"
    by (auto simp: holds_policy_id_def)
  let ?kvs' = "AList.update k x kvs"
  from s d have s': "s' = set_object h v (HDict ?kvs')" by (simp add: h_setitem_def)
  have 1: "deref (fst s') (snd s') = HDict ?kvs'"
    unfolding s' by (rule deref_set_object [where kvs = kvs and xs = "[]"]) (simp_all add: d)
  have 2: "map_of ?kvs' ''properties'' = Some p" using p k by (simp add: update_conv')
  have 3: "\<exists>pkvs'. deref (fst s') p = HDict pkvs' \<and> map_of pkvs' ''policyId'' \<noteq> None"
  proof (cases "\<exists>a. v = HRef a \<and> p = HRef a")
    case True
    with d dp have "pkvs = kvs" by auto
    with a have "map_of ?kvs' ''policyId'' \<noteq> None" by (simp add: update_conv')
    with True show ?thesis unfolding s' deref_after_set_object [OF d] by simp
  next
    case False
    then have "deref (fst (set_object h v (HDict ?kvs'))) p = deref h p"
      unfolding deref_after_set_object [OF d] by auto
    with dp a show ?thesis unfolding s' by simp
  qed
  from 1 2 3 show ?thesis by (auto simp: holds_policy_id_def)
qed

lemma ensure_key_shared_holds:
  assumes "holds_policy_id s" and "ensure_key_shared k d s = Inr s'" and "k \<noteq> ''properties''"
  shows "holds_policy_id s'"
proof -
  obtain h v where s: "s = (h, v)" by force
  from assms(2) obtain present where
    r: "(if present then Inr (h, v) else h_setitem h v k d) = Inr s'"
    unfolding s by (auto simp: ensure_key_shared_def ebind_eq_Inr)
  show ?thesis
  proof (cases present)
    case True
    with r assms(1) show ?thesis by (simp add: s)
  next
    case False
    with r have "h_setitem h v k d = Inr s'" by simp
    with assms(1) [unfolded s] show ?thesis using assms(3) by (rule h_setitem_holds)
  qed
qed

lemma set_policy_id_property_shared_holds:
  assumes "set_policy_id_property_shared (h, v) = Inr s'"
  shows "holds_policy_id s'"
proof -
  from assms obtain p hp where g: "h_getitem h v ''properties'' = Inr p"
    and w: "h_setitem h p ''policyId'' (inline policy_id_property) = Inr hp"
    and m: "put_member (fst hp) v ''properties'' p (snd hp) = Inr s'"
    by (auto simp: set_policy_id_property_shared_def ebind_eq_Inr split: prod.splits)
  from g obtain kvs where d: "deref h v = HDict kvs" and p: "map_of kvs ''properties'' = Some p"
    by (cases "deref h v") (auto simp: h_getitem_def split: option.splits)
  from w obtain pkvs where dp: "deref h p = HDict pkvs"
    by (cases "deref h p") (auto simp: h_setitem_def)
  let ?c = "AList.update ''policyId'' (inline policy_id_property) pkvs"
  from w dp have hp: "hp = set_object h p (HDict ?c)" by (simp add: h_setitem_def)
  have c: "map_of ?c ''policyId'' \<noteq> None" by (simp add: update_conv')
  show ?thesis
  proof (cases "\<exists>b. p = HRef b")
    case True
    then obtain b where pb: "p = HRef b" by blast
    with m have s': "s' = (fst (set_object h p (HDict ?c)), v)"
      by (simp add: put_member_def hp)
    have dp': "deref (fst (set_object h p (HDict ?c))) p = HDict ?c"
      unfolding deref_after_set_object [OF dp] using pb by simp
    show ?thesis
    proof (cases "v = p")
      case True
      with d dp have "kvs = pkvs" by simp
      with p have "map_of ?c ''properties'' = Some p" by (simp add: update_conv')
      with dp' c True show ?thesis unfolding s' by (auto simp: holds_policy_id_def)
    next
      case False
      with pb have "deref (fst (set_object h p (HDict ?c))) v = HDict kvs"
        unfolding deref_after_set_object [OF dp] using d by auto
      with p dp' c show ?thesis unfolding s' by (auto simp: holds_policy_id_def)
    qed
  next
    case False
    then have "set_object h p (HDict ?c) = (h, HDict ?c)"
      by (cases p) (simp_all add: set_object_def)
    with False m have "h_setitem h v ''properties'' (HDict ?c) = Inr s'"
      by (cases p) (simp_all add: put_member_def hp)
    with d have s': "s' = set_object h v (HDict (AList.update ''properties'' (HDict ?c) kvs))"
      by (simp add: h_setitem_def)
    have 1: "deref (fst s') (snd s') = HDict (AList.update ''properties'' (HDict ?c) kvs)"
      unfolding s' by (rule deref_set_object [where kvs = kvs and xs = "[]"]) (simp_all add: d)
    have 2: "deref (fst s') (HDict ?c) = HDict ?c" by (simp add: deref_def)
    from 1 2 c show ?thesis by (auto simp: holds_policy_id_def update_conv')
  qed
qed

lemma append_policy_id_required_shared_holds:
  assumes q: "holds_policy_id (h, v)" and s: "append_policy_id_required_shared (h, v) = Inr s'"
  shows "holds_policy_id s'"
proof -
  from s obtain r present where g: "h_getitem h v ''required'' = Inr r"
    and c: "(if present then Inr (h, v)
             else ebind (h_append h r (HStr ''policyId'')) (\<lambda>(h', required').
                  put_member h' v ''required'' r required')) = Inr s'"
    by (auto simp: append_policy_id_required_shared_def ebind_eq_Inr)
  show ?thesis
  proof (cases present)
    case True
    with c q show ?thesis by simp
  next
    case False
    with c obtain hr where w: "h_append h r (HStr ''policyId'') = Inr hr"
      and m: "put_member (fst hr) v ''required'' r (snd hr) = Inr s'"
      by (auto simp: ebind_eq_Inr split: prod.splits)
    from w obtain xs where dr: "deref h r = HList xs"
      and hr: "hr = set_object h r (HList (xs @ [HStr ''policyId'']))"
      by (cases "deref h r") (auto simp: h_append_def)
    show ?thesis
    proof (cases "\<exists>c. r = HRef c")
      case True
      then obtain c where rc: "r = HRef c" by blast
      with dr have cl: "c < length h" and hc: "h ! c = HList xs"
        by (auto simp: deref_def split: if_splits)
      let ?h' = "h[c := HList (xs @ [HStr ''policyId''])]"
      from m rc have s': "s' = (?h', v)" by (simp add: put_member_def hr set_object_def)
      have keep: "deref ?h' w = deref h w" if "deref h w = HDict kvs" for w kvs
      proof (cases "w = HRef c")
        case True
        with that cl hc show ?thesis by (simp add: deref_def)
      next
        case False
        then show ?thesis by (cases w) (auto simp: deref_def nth_list_update)
      qed
      from q obtain kvs p pkvs where d: "deref h v = HDict kvs"
        and p: "map_of kvs ''properties'' = Some p"
        and dp: "deref h p = HDict pkvs" and a: "map_of pkvs ''policyId'' \<noteq> None"
        by (auto simp: holds_policy_id_def)
      from keep [OF d] keep [OF dp] d p dp a show ?thesis
        unfolding s' by (auto simp: holds_policy_id_def)
    next
      case False
      then have "set_object h r (HList (xs @ [HStr ''policyId''])) = (h, HList (xs @ [HStr ''policyId'']))"
        by (cases r) (simp_all add: set_object_def)
      with False m have "h_setitem h v ''required'' (HList (xs @ [HStr ''policyId''])) = Inr s'"
        by (cases r) (simp_all add: put_member_def hr)
      with q show ?thesis by (rule h_setitem_holds) simp
    qed
  qed
qed

text \<open>The block in place, applied to a schema it has been applied to, changes nothing,
  whatever the schema shares.\<close>

lemma inject_policy_id_shared_again:
  assumes "inject_policy_id_shared s = (Inr u, s')"
  shows "inject_policy_id_shared s' = (Inr (), s')"
proof -
  obtain h v where s: "s = (h, v)" by force
  obtain h' v' where s': "s' = (h', v')" by force
  have "ebind (h_get h' v' ''properties'' (HDict [])) (h_in h' ''policyId'') = Inr True"
  proof (cases "ebind (h_get h v ''properties'' (HDict [])) (h_in h ''policyId'')")
    case (Inl e)
    with assms show ?thesis by (simp add: s inject_policy_id_shared_def)
  next
    case (Inr b)
    show ?thesis
    proof (cases b)
      case True
      with Inr assms have "s' = (h, v)" by (simp add: s inject_policy_id_shared_def)
      with Inr True s' show ?thesis by simp
    next
      case False
      with Inr assms obtain s1 s2 s3 where
        1: "ensure_key_shared ''properties'' (HDict []) (h, v) = Inr s1"
        and 2: "set_policy_id_property_shared s1 = Inr s2"
        and 3: "ensure_key_shared ''required'' (HList []) s2 = Inr s3"
        and 4: "append_policy_id_required_shared s3 = Inr s'"
        by (auto simp: s inject_policy_id_shared_def sbind_shared_Inr modify_shared_Inr)
      obtain h1 v1 where s1: "s1 = (h1, v1)" by force
      obtain h3 v3 where s3: "s3 = (h3, v3)" by force
      have "holds_policy_id s2"
        using 2 unfolding s1 by (rule set_policy_id_property_shared_holds)
      then have "holds_policy_id s3" using 3 by (rule ensure_key_shared_holds) simp
      then have "holds_policy_id s'"
        using 4 unfolding s3 by (rule append_policy_id_required_shared_holds)
      then show ?thesis unfolding s' by (rule holds_policy_id_guard)
    qed
  qed
  then show ?thesis by (simp add: s' inject_policy_id_shared_def)
qed

subsection \<open>A second run on the document the first run left\<close>

lemma schema_step_nil:
  assumes "schema_step ins ([], v) = (Inr rules, s')"
  shows "fst s' = [] \<and> schema_step ins s' = (Inr rules, s')"
proof -
  have "wrote ([], v) (snd (schema_step ins ([], v)))" by (rule schema_step_wrote)
  with assms have h: "fst s' = []" by (simp add: wrote_def)
  show ?thesis
  proof (cases ins)
    case False
    with assms have "s' = ([], v)" by (auto simp: schema_step_def split: sum.splits prod.splits)
    with assms h show ?thesis by simp
  next
    case True
    with assms obtain u where i: "inject_policy_id_shared ([], v) = (Inr u, s')"
      and p: "(case prepare_properties (snapshot (fst s') (snd s')) of
                 Inl e \<Rightarrow> (Inl e, s')
               | Inr (required_fields, items) \<Rightarrow>
                   (Inr (emitted_rules ins required_fields items), s')) = (Inr rules, s')"
      by (cases "inject_policy_id_shared ([], v)")
         (auto simp: schema_step_def split: sum.splits prod.splits)
    from p have "(case prepare_properties (snapshot (fst s') (snd s')) of
                 Inl e \<Rightarrow> (Inl e, s')
               | Inr (required_fields, items) \<Rightarrow>
                   (Inr (emitted_rules True required_fields items), s')) = (Inr rules, s')"
      unfolding True [THEN eqTrueI] .
    with inject_policy_id_shared_again [OF i] h show ?thesis
      unfolding True [THEN eqTrueI] by (simp add: schema_step_def)
  qed
qed

lemma process_schemas_nil:
  assumes "\<not> list_ex raised (schema_steps ins [] items)"
  shows "fst (snd (snd (process_schemas ins gid items [] st p))) = []
       \<and> schema_steps ins [] (snd (snd (snd (process_schemas ins gid items [] st p))))
           = schema_steps ins [] items
       \<and> fst (snd (snd (process_schemas ins gid'
                (snd (snd (snd (process_schemas ins gid items [] st p)))) [] st' p'))) = []
       \<and> snd (snd (snd (process_schemas ins gid'
                (snd (snd (snd (process_schemas ins gid items [] st p)))) [] st' p')))
           = snd (snd (snd (process_schemas ins gid items [] st p)))"
  using assms
proof (induction items arbitrary: st p st' p')
  case Nil
  show ?case by simp
next
  case (Cons item rest)
  obtain name sd where item: "item = (name, sd)" by force
  show ?case
  proof (cases "name = ''AmountDetails'' \<and> ins")
    case True
    then have sk: "skipped ins name" by (simp add: skipped_def)
    from Cons.prems have nr: "\<not> list_ex raised (schema_steps ins [] rest)"
      unfolding item schema_steps_skip [OF sk] .
    let ?rest' = "snd (snd (snd (process_schemas ins gid rest [] st p)))"
    from Cons.IH [OF nr, of st p st' p']
    show ?thesis
      unfolding item process_schemas_skip [OF True] schema_steps_skip [OF sk] by simp
  next
    case False
    then have ns: "\<not> skipped ins name" by (simp add: skipped_def)
    obtain r st1 h1 sd' where ps: "process_schema ins gid name ([], sd) st = (r, st1, h1, sd')"
      by (metis prod_cases4)
    from ps show ?thesis
    proof (cases rule: process_schema_cases)
      case (raise e)
      with Cons.prems ns show ?thesis by (simp add: item)
    next
      case (continue rules)
      from schema_step_nil [OF continue(2)]
      have h1: "h1 = []" by simp
      from schema_step_nil [OF continue(2)]
      have again: "schema_step ins ([], sd') = (Inr rules, [], sd')"
        unfolding h1 by simp
      from Cons.prems have nr: "\<not> list_ex raised (schema_steps ins [] rest)"
        unfolding item schema_steps_continue [OF ns continue(2)] h1 by simp
      let ?p = "if length rules > 0 then p @ [name] else p"
      let ?p' = "if length rules > 0 then p' @ [name] else p'"
      let ?rest' = "snd (snd (snd (process_schemas ins gid rest [] st1 ?p)))"
      obtain st1' where ps': "process_schema ins gid' name ([], sd') st' = (Inr (length rules), st1', [], sd')"
        using process_schema_step [of ins gid' name "([], sd')" st'] again
        by (cases "process_schema ins gid' name ([], sd') st'") auto
      have first: "snd (snd (snd (process_schemas ins gid ((name, sd) # rest) [] st p)))
                     = (name, sd') # ?rest'"
        and heap: "fst (snd (snd (process_schemas ins gid ((name, sd) # rest) [] st p)))
                     = fst (snd (snd (process_schemas ins gid rest [] st1 ?p)))"
        unfolding process_schemas_continue [OF False ps [unfolded continue(1)]] h1 by simp_all
      from Cons.IH [OF nr, of st1 ?p st1' ?p']
      show ?thesis
        unfolding item first heap
          schema_steps_continue [OF ns again] schema_steps_continue [OF ns continue(2)] h1
          process_schemas_continue [OF False ps']
        by simp
    qed
  qed
qed

lemma process_schemas_nil_again:
  assumes nr: "\<not> list_ex raised (schema_steps ins [] items)"
    and run: "process_schemas ins gid items [] st [] = (r, st2, h', items')"
  shows "h' = []" and "process_schemas ins gid items' [] st2 [] = (r, st2, [], items')"
proof -
  from process_schemas_nil [OF nr, of gid st "[]" gid st2 "[]"] run
  have h': "h' = []" and steps: "schema_steps ins [] items' = schema_steps ins [] items"
    and h3: "fst (snd (snd (process_schemas ins gid items' [] st2 []))) = []"
    and i3: "snd (snd (snd (process_schemas ins gid items' [] st2 []))) = items'"
    by simp_all
  show "h' = []" by (rule h')
  obtain r3 st3 h3' items3 where run2: "process_schemas ins gid items' [] st2 [] = (r3, st3, h3', items3)"
    by (metis prod_cases4)
  with h3 i3 have d: "h3' = []" "items3 = items'" by simp_all
  have "r = Inr (map fst (filter emitted (schema_steps ins [] items)))"
    using process_schemas_result [where ins = ins and gid = gid and items = items
        and h = "[]" and st = st and p = "[]"] run nr by (simp split: sum.splits)
  moreover have "r3 = Inr (map fst (filter emitted (schema_steps ins [] items)))"
    using process_schemas_result [where ins = ins and gid = gid and items = items'
        and h = "[]" and st = st2 and p = "[]"] run2 nr steps by (simp split: sum.splits)
  ultimately have rr: "r3 = r" by simp
  let ?rows = "map (\<lambda>step. (fst step, gid)) (schema_steps ins [] items)"
  have g: "grupos st3 = grupos st2"
    using process_schemas_grupos [of ins gid items' "[]" st2 "[]"] run2 by simp
  have c2: "conjuntos st2 = upsert_rows ?rows (conjuntos st)"
    using process_schemas_conjuntos [of ins gid items "[]" st "[]"] run by simp
  have c3: "conjuntos st3 = upsert_rows ?rows (conjuntos st2)"
    using process_schemas_conjuntos [of ins gid items' "[]" st2 "[]"] run2 steps by simp
  have c: "conjuntos st3 = conjuntos st2"
    unfolding c3 c2 by (rule upsert_rows_idem)
  have r2: "regras st2 = updates (rule_writes gid (conjuntos st2) (schema_steps ins [] items)) (regras st)"
    using process_schemas_regras [of "conjuntos st2" ins gid items "[]" st "[]"] run by simp
  have r3: "regras st3 = updates (rule_writes gid (conjuntos st2) (schema_steps ins [] items)) (regras st2)"
    using process_schemas_regras [of "conjuntos st2" ins gid items' "[]" st2 "[]"] run2 c steps
    by simp
  have rg: "regras st3 = regras st2"
    unfolding r3 unfolding r2 by (rule updates_idem)
  have "st3 = st2" using g c rg by (simp add: store.equality)
  with run2 rr d show "process_schemas ins gid items' [] st2 [] = (r, st2, [], items')" by simp
qed

subsection \<open>Processing a document twice\<close>

text \<open>
  Claim C9. Call \<^verbatim>\<open>process_yaml_to_db\<close> on a document, and call it again on the same
  document (the loader returning what it returned the first time, shared objects
  included) against the store the first call left. The second call returns the same
  boolean and leaves the loaded document in the same state, and the store after it is
  the store before it: the same groups, datasets and rules in the same rows, so no row
  is duplicated and no rule body is changed. The injection of \<^verbatim>\<open>policyId\<close> into a schema
  it has already been applied to changes nothing, so no second \<^verbatim>\<open>policyId\<close> entry is
  added to a \<^verbatim>\<open>required\<close> list; that holds for the block on a tree and for the block
  on the loaded objects, whatever they share. And when the document shares no object
  and no schema raised in the first call, the second call gives the same result also
  when the loader hands back the very dictionaries the first call wrote \<^verbatim>\<open>policyId\<close>
  into.
\<close>

theorem second_run_changes_nothing:
  "process_yaml_to_db yaml_path api_name extracted yaml_api_name
     (fst (snd (process_yaml_to_db yaml_path api_name extracted yaml_api_name st)))
   = (fst (process_yaml_to_db yaml_path api_name extracted yaml_api_name st),
      fst (snd (process_yaml_to_db yaml_path api_name extracted yaml_api_name st)),
      snd (snd (process_yaml_to_db yaml_path api_name extracted yaml_api_name st)))
   \<and> (\<forall>schema_data schema_data'.
         inject_policy_id schema_data = (Inr (), schema_data')
         \<longrightarrow> inject_policy_id schema_data' = (Inr (), schema_data'))
   \<and> (\<forall>schema_data schema_data'.
         inject_policy_id_shared schema_data = (Inr (), schema_data')
         \<longrightarrow> inject_policy_id_shared schema_data' = (Inr (), schema_data'))
   \<and> (\<forall>schemas items. extracted = Inr ([], schemas) \<and> deref [] schemas = HDict items
         \<and> \<not> list_ex raised (schema_steps (is_insurance_related_file yaml_path) [] items)
         \<longrightarrow> process_yaml_to_db yaml_path api_name
               (snd (snd (process_yaml_to_db yaml_path api_name extracted yaml_api_name st)))
               yaml_api_name
               (fst (snd (process_yaml_to_db yaml_path api_name extracted yaml_api_name st)))
             = (fst (process_yaml_to_db yaml_path api_name extracted yaml_api_name st),
                fst (snd (process_yaml_to_db yaml_path api_name extracted yaml_api_name st)),
                snd (snd (process_yaml_to_db yaml_path api_name extracted yaml_api_name st))))
   \<and> (\<forall>items. extracted = Inr ([], inline (JDict items))
         \<and> \<not> list_ex (schema_raises (is_insurance_related_file yaml_path)) items
         \<longrightarrow> process_yaml_to_db yaml_path api_name
               (snd (snd (process_yaml_to_db yaml_path api_name extracted yaml_api_name st)))
               yaml_api_name
               (fst (snd (process_yaml_to_db yaml_path api_name extracted yaml_api_name st)))
             = (fst (process_yaml_to_db yaml_path api_name extracted yaml_api_name st),
                fst (snd (process_yaml_to_db yaml_path api_name extracted yaml_api_name st)),
                snd (snd (process_yaml_to_db yaml_path api_name extracted yaml_api_name st))))"
proof -
  let ?ins = "is_insurance_related_file yaml_path"
  let ?run = "process_yaml_to_db yaml_path api_name extracted yaml_api_name"
  have handed_back: "process_yaml_to_db yaml_path api_name (snd (snd (?run st))) yaml_api_name
                        (fst (snd (?run st)))
                     = (fst (?run st), fst (snd (?run st)), snd (snd (?run st)))"
    if a: "extracted = Inr ([], schemas) \<and> deref [] schemas = HDict items
               \<and> \<not> list_ex raised (schema_steps ?ins [] items)" for schemas items
  proof -
    from a have ex: "extracted = Inr ([], schemas)" and d: "deref [] schemas = HDict items"
      and nr: "\<not> list_ex raised (schema_steps ?ins [] items)"
      by simp_all
    from d have s: "schemas = HDict items" by (cases schemas) (simp_all add: deref_def)
    have "process_yaml_to_db yaml_path api_name (snd (snd (?run st))) yaml_api_name (fst (snd (?run st)))
          = ?run st"
    proof (cases "items \<noteq> [] \<and> (\<exists>name. yaml_api_name = Inr name)")
      case False
      then have "process_yaml_to_db yaml_path api_name extracted yaml_api_name s
                   = (False, s, extracted)" for s
        using ex s by (cases yaml_api_name) (auto simp: process_yaml_to_db_def h_truthy_def deref_def)
      then show ?thesis by simp
    next
      case True
      then obtain name where ne: "items \<noteq> []" and n: "yaml_api_name = Inr name" by blast
      define nome where "nome = (case name of None \<Rightarrow> api_name | Some n \<Rightarrow> if n \<noteq> [] then n else api_name)"
      obtain gid st1 where g: "upsert_grupo st nome = (gid, st1)" by force
      obtain r st2 h' items' where run: "process_schemas ?ins gid items [] st1 [] = (r, st2, h', items')"
        by (metis prod_cases4)
      have h': "h' = []" and again: "process_schemas ?ins gid items' [] st2 [] = (r, st2, [], items')"
        using process_schemas_nil_again [OF nr run] by simp_all
      have "list_all2 (schema_written ?ins) items items'"
        using process_schemas_wrote [of "[]" ?ins gid items st1 "[]"] run by simp
      then have "length items' = length items" by (simp add: list_all2_lengthD)
      with ne have ne': "items' \<noteq> []" by auto
      have g2: "upsert_grupo st2 nome = (gid, st2)"
      proof (rule upsert_grupo_again [OF g])
        show "grupos st2 = grupos st1"
          using process_schemas_grupos [of ?ins gid items "[]" st1 "[]"] run by simp
      qed
      have r1: "?run st = ((case r of Inl e \<Rightarrow> False | Inr ps \<Rightarrow> ps \<noteq> []), st2,
                           Inr ([], HDict items'))"
        using ex s ne n g run h'
        by (simp add: process_yaml_to_db_def nome_def h_truthy_def h_items_def deref_def set_object_def)
      have r2: "process_yaml_to_db yaml_path api_name (Inr ([], HDict items')) yaml_api_name st2
           = ((case r of Inl e \<Rightarrow> False | Inr ps \<Rightarrow> ps \<noteq> []), st2, Inr ([], HDict items'))"
        using ne' n g2 again
        by (simp add: process_yaml_to_db_def nome_def h_truthy_def h_items_def deref_def set_object_def)
      show ?thesis by (simp add: r1 r2)
    qed
    then show ?thesis by simp
  qed
  show ?thesis
  proof (intro conjI allI impI)
    fix schema_data schema_data'
    assume "inject_policy_id schema_data = (Inr (), schema_data')"
    then show "inject_policy_id schema_data' = (Inr (), schema_data')"
      by (rule inject_policy_id_again)
  next
    fix schema_data schema_data'
    assume "inject_policy_id_shared schema_data = (Inr (), schema_data')"
    then show "inject_policy_id_shared schema_data' = (Inr (), schema_data')"
      by (rule inject_policy_id_shared_again)
  next
    let ?run = "process_yaml_to_db yaml_path api_name extracted yaml_api_name"
    have "?run (fst (snd (?run st))) = ?run st" by (rule process_yaml_to_db_again)
    then show "?run (fst (snd (?run st)))
       = (fst (?run st), fst (snd (?run st)), snd (snd (?run st)))" by simp
  next
    fix schemas items
    assume "extracted = Inr ([], schemas) \<and> deref [] schemas = HDict items
              \<and> \<not> list_ex raised (schema_steps ?ins [] items)"
    then show "process_yaml_to_db yaml_path api_name (snd (snd (?run st))) yaml_api_name
                 (fst (snd (?run st)))
               = (fst (?run st), fst (snd (?run st)), snd (snd (?run st)))"
      by (rule handed_back)
  next
    fix items
    assume a: "extracted = Inr ([], inline (JDict items)) \<and> \<not> list_ex (schema_raises ?ins) items"
    let ?items = "map (\<lambda>kv. (fst kv, inline (snd kv))) items"
    have "deref [] (inline (JDict items)) = HDict ?items" by (simp add: deref_def)
    moreover from a have "\<not> list_ex raised (schema_steps ?ins [] ?items)"
      by (simp add: schema_steps_inline_raised)
    ultimately show "process_yaml_to_db yaml_path api_name (snd (snd (?run st))) yaml_api_name
                 (fst (snd (?run st)))
               = (fst (?run st), fst (snd (?run st)), snd (snd (?run st)))"
      using a by (intro handed_back) simp
  qed
qed

theorem second_run_changes_nothing_witness:
  "process_yaml_to_db ''specs/resources_v2.yaml'' ''resources''
     (Inr ([], inline (JDict [(''Resource'',
                   JDict [(''properties'',
                           JDict [(''name'', JDict [(''type'', JStr ''string''),
                                                    (''maxLength'', JInt 50)]),
                                  (''owner'', JDict [(''$ref'', JStr ''#/Owner'')])])])]))) (Inr None)
     \<lparr>grupos = [''resources''], conjuntos = [(''Resource'', 0)],
        regras = [((0, ''name''),
                   \<lparr>rc_type = JStr ''string'', rc_size = JInt 50, rc_required = False,
                      rc_enum_values = None\<rparr>),
                  ((0, ''policyId''),
                   \<lparr>rc_type = JStr ''string'', rc_size = JInt 100, rc_required = True,
                      rc_enum_values = None\<rparr>)]\<rparr>
   = (True,
      \<lparr>grupos = [''resources''], conjuntos = [(''Resource'', 0)],
        regras = [((0, ''name''),
                   \<lparr>rc_type = JStr ''string'', rc_size = JInt 50, rc_required = False,
                      rc_enum_values = None\<rparr>),
                  ((0, ''policyId''),
                   \<lparr>rc_type = JStr ''string'', rc_size = JInt 100, rc_required = True,
                      rc_enum_values = None\<rparr>)]\<rparr>,
      Inr ([], inline (JDict [(''Resource'',
                   JDict [(''properties'',
                           JDict [(''name'', JDict [(''type'', JStr ''string''),
                                                    (''maxLength'', JInt 50)]),
                                  (''owner'', JDict [(''$ref'', JStr ''#/Owner'')]),
                                  (''policyId'', policy_id_property)]),
                          (''required'', JList [JStr ''policyId''])])])))
   \<and> process_yaml_to_db ''specs/resources_v2.yaml'' ''resources''
     (Inr ([], inline (JDict [(''Resource'',
                   JDict [(''properties'',
                           JDict [(''name'', JDict [(''type'', JStr ''string''),
                                                    (''maxLength'', JInt 50)]),
                                  (''owner'', JDict [(''$ref'', JStr ''#/Owner'')]),
                                  (''policyId'', policy_id_property)]),
                          (''required'', JList [JStr ''policyId''])])]))) (Inr None)
     \<lparr>grupos = [''resources''], conjuntos = [(''Resource'', 0)],
        regras = [((0, ''name''),
                   \<lparr>rc_type = JStr ''string'', rc_size = JInt 50, rc_required = False,
                      rc_enum_values = None\<rparr>),
                  ((0, ''policyId''),
                   \<lparr>rc_type = JStr ''string'', rc_size = JInt 100, rc_required = True,
                      rc_enum_values = None\<rparr>)]\<rparr>
   = (True,
      \<lparr>grupos = [''resources''], conjuntos = [(''Resource'', 0)],
        regras = [((0, ''name''),
                   \<lparr>rc_type = JStr ''string'', rc_size = JInt 50, rc_required = False,
                      rc_enum_values = None\<rparr>),
                  ((0, ''policyId''),
                   \<lparr>rc_type = JStr ''string'', rc_size = JInt 100, rc_required = True,
                      rc_enum_values = None\<rparr>)]\<rparr>,
      Inr ([], inline (JDict [(''Resource'',
                   JDict [(''properties'',
                           JDict [(''name'', JDict [(''type'', JStr ''string''),
                                                    (''maxLength'', JInt 50)]),
                                  (''owner'', JDict [(''$ref'', JStr ''#/Owner'')]),
                                  (''policyId'', policy_id_property)]),
                          (''required'', JList [JStr ''policyId''])])])))"
proof -
  define loaded where "loaded = [(''Resource'',
                   JDict [(''properties'',
                           JDict [(''name'', JDict [(''type'', JStr ''string''),
                                                    (''maxLength'', JInt 50)]),
                                  (''owner'', JDict [(''$ref'', JStr ''#/Owner'')])])])]"
  define items where "items = map (\<lambda>kv. (fst kv, inline (snd kv))) loaded"
  define after where "after = inline (JDict [(''Resource'',
                   JDict [(''properties'',
                           JDict [(''name'', JDict [(''type'', JStr ''string''),
                                                    (''maxLength'', JInt 50)]),
                                  (''owner'', JDict [(''$ref'', JStr ''#/Owner'')]),
                                  (''policyId'', policy_id_property)]),
                          (''required'', JList [JStr ''policyId''])])])"
  define filled where "filled = \<lparr>grupos = [''resources''], conjuntos = [(''Resource'', 0)],
        regras = [((0, ''name''),
                   \<lparr>rc_type = JStr ''string'', rc_size = JInt 50, rc_required = False,
                      rc_enum_values = None\<rparr>),
                  ((0, ''policyId''),
                   \<lparr>rc_type = JStr ''string'', rc_size = JInt 100, rc_required = True,
                      rc_enum_values = None\<rparr>)]\<rparr>"
  let ?run = "process_yaml_to_db ''specs/resources_v2.yaml'' ''resources''"
  let ?empty = "\<lparr>grupos = [], conjuntos = [], regras = []\<rparr>"
  have first: "?run (Inr ([], inline (JDict loaded))) (Inr None) ?empty = (True, filled, Inr ([], after))"
    unfolding loaded_def after_def filled_def by code_simp
  have quiet: "\<not> list_ex raised
                  (schema_steps (is_insurance_related_file ''specs/resources_v2.yaml'') [] items)"
    unfolding items_def loaded_def by code_simp
  have d: "deref [] (inline (JDict loaded)) = HDict items"
    by (simp add: deref_def items_def)
  note twice = second_run_changes_nothing [of "''specs/resources_v2.yaml''" "''resources''"
      "Inr ([], inline (JDict loaded))" "Inr None" ?empty]
  from twice have "?run (Inr ([], inline (JDict loaded))) (Inr None) filled = (True, filled, Inr ([], after))"
    unfolding first by simp
  moreover from twice d quiet
  have "?run (Inr ([], after)) (Inr None) filled = (True, filled, Inr ([], after))"
    unfolding first by simp
  ultimately show ?thesis
    unfolding loaded_def after_def filled_def by simp
qed


end
